theory Spec2Isabelle
  imports Complex_Main "HOL-Library.Log_Nat"
begin

section \<open>Android icon resizer (\<open>src/devscripts/icon_resizer.py\<close>)\<close>

text \<open>
  The script is Python 2.7. Its integers are unbounded (\<open>int\<close>), its strings are byte
  strings (\<open>string\<close>), and its \<open>float\<close> is the IEEE 754 binary64 format. Every
  exception the code can meet is a value of \<open>py_error\<close>; a function that can raise
  returns \<open>py_error + 'a\<close> with \<open>Inl\<close> for the exception.
\<close>

subsection \<open>Exceptions\<close>

datatype py_error =
    OverflowError
  | ZeroDivisionError
  | ValueError
  | OSError nat
  | IOError
  | TypeError

fun is_OSError :: "py_error \<Rightarrow> bool" where
  "is_OSError (OSError n) = True"
| "is_OSError e = False"

subsection \<open>Python floats: binary64 with round-to-nearest, ties to even\<close>

text \<open>
  A finite double is the rational number it denotes. \<open>round_double\<close> is the rounding
  every arithmetic operation ends with: the result is the multiple of the unit in the
  last place nearest to the exact value, ties going to the even multiple. The unit is
  \<open>2 ^ (e - 52)\<close> for a value in \<open>[2 ^ e, 2 ^ (e + 1))\<close>, and \<open>2 ^ (- 1074)\<close>
  below \<open>2 ^ (- 1022)\<close> (the subnormal range). A rounded magnitude of \<open>2 ^ 1024\<close> or
  more is an infinity. The sign of a zero and of an infinity is not kept: the code only
  passes its floats to \<open>int()\<close>, which does not see it.
\<close>

datatype py_float = Finite rat | Infinite | NaN

definition two_pow :: "int \<Rightarrow> rat" where
  "two_pow e = power_int 2 e"

text \<open>
  For a positive \<open>x\<close>, \<open>floor_log2 x\<close> is the \<open>e\<close> with
  \<open>2 ^ e \<le> x < 2 ^ (e + 1)\<close>: the difference of the bit lengths of numerator and
  denominator, or one less. \<open>round_half_even\<close> is the nearest integer, the even one of
  the two at a tie.
\<close>

definition floor_log2 :: "rat \<Rightarrow> int" where
  "floor_log2 x =
     (let (a, b) = quotient_of x; d = bitlen a - bitlen b
      in if two_pow d \<le> x then d else d - 1)"

definition round_half_even :: "rat \<Rightarrow> int" where
  "round_half_even y =
     (let f = \<lfloor>y\<rfloor>; r = y - of_int f
      in if r < 1 / 2 then f
         else if 1 / 2 < r then f + 1
         else if even f then f else f + 1)"

definition round_double :: "rat \<Rightarrow> rat" where
  "round_double x =
     (if x = 0 then 0
      else let e = max (floor_log2 \<bar>x\<bar>) (- 1022); ulp = two_pow (e - 52)
           in of_int (round_half_even (x / ulp)) * ulp)"

definition to_double :: "rat \<Rightarrow> py_float" where
  "to_double x =
     (let r = round_double x in if 2 ^ 1024 \<le> \<bar>r\<bar> then Infinite else Finite r)"

text \<open>\<open>float(n)\<close> for an integer \<open>n\<close>: correctly rounded, OverflowError when too large.\<close>

definition py_float_of_int :: "int \<Rightarrow> py_error + rat" where
  "py_float_of_int n =
     (case to_double (of_int n) of
        Finite r \<Rightarrow> Inr r
      | Infinite \<Rightarrow> Inl OverflowError
      | NaN \<Rightarrow> Inl OverflowError)"

text \<open>\<open>a / b\<close> on two finite floats: ZeroDivisionError when \<open>b\<close> is zero.\<close>

definition float_div :: "rat \<Rightarrow> rat \<Rightarrow> py_error + py_float" where
  "float_div a b = (if b = 0 then Inl ZeroDivisionError else Inr (to_double (a / b)))"

text \<open>\<open>a * y\<close> for a finite float \<open>a\<close>: no exception, overflow gives an infinity.\<close>

fun float_mul :: "rat \<Rightarrow> py_float \<Rightarrow> py_float" where
  "float_mul a (Finite b) = to_double (a * b)"
| "float_mul a Infinite = (if a = 0 then NaN else Infinite)"
| "float_mul a NaN = NaN"

text \<open>\<open>int(y)\<close> truncates toward zero; it raises on an infinity and on a NaN.\<close>

definition truncate_rat :: "rat \<Rightarrow> int" where
  "truncate_rat r = (if 0 \<le> r then \<lfloor>r\<rfloor> else \<lceil>r\<rceil>)"

fun py_int_of_float :: "py_float \<Rightarrow> py_error + int" where
  "py_int_of_float (Finite r) = Inr (truncate_rat r)"
| "py_int_of_float Infinite = Inl OverflowError"
| "py_int_of_float NaN = Inl ValueError"

subsection \<open>\<open>get_width_height\<close>\<close>

text \<open>
  \<open>scale_side side target_size longer\<close> is the pair of statements
  \<^verbatim>\<open>wpercent = (target_size / float(longer))\<close> and
  \<^verbatim>\<open>int((float(side) * float(wpercent)))\<close>, which both branches of
  \<open>get_width_height\<close> run with the roles of width and height exchanged.
  \<open>float(longer)\<close> is evaluated first, then \<open>target_size\<close> is converted for the
  division; \<open>float(wpercent)\<close> is the identity on a float.
\<close>

definition scale_side :: "int \<Rightarrow> int \<Rightarrow> int \<Rightarrow> py_error + int" where
  "scale_side side target_size longer =
     (case py_float_of_int longer of
        Inl e \<Rightarrow> Inl e
      | Inr l \<Rightarrow>
          (case py_float_of_int target_size of
             Inl e \<Rightarrow> Inl e
           | Inr t \<Rightarrow>
               (case float_div t l of
                  Inl e \<Rightarrow> Inl e
                | Inr wpercent \<Rightarrow>
                    (case py_float_of_int side of
                       Inl e \<Rightarrow> Inl e
                     | Inr s \<Rightarrow> py_int_of_float (float_mul s wpercent)))))"

definition get_width_height :: "int \<Rightarrow> int \<Rightarrow> int \<Rightarrow> py_error + (int \<times> int)" where
  "get_width_height width height target_size =
     (if width > height then
        (case scale_side height target_size width of
           Inl e \<Rightarrow> Inl e
         | Inr new_height \<Rightarrow> Inr (target_size, new_height))
      else
        (case scale_side width target_size height of
           Inl e \<Rightarrow> Inl e
         | Inr new_width \<Rightarrow> Inr (new_width, target_size)))"

subsection \<open>Constants\<close>

text \<open>
  \<open>RESOLUTION_SIZES\<close> and \<open>RELATIVE_SIZES\<close> are dictionaries, read only with
  \<open>.get\<close> and by iteration over the keys; they are association lists, looked up with
  \<open>map_of\<close>. The values of \<open>RELATIVE_SIZES\<close> are float literals, each of them a
  double exactly. \<open>DRAWABLE_FOLDER_PATH\<close> is the format string
  \<^verbatim>\<open>'res/drawable-%s'\<close>, applied to its argument.
\<close>

definition RESOLUTION_TYPES :: "string list" where
  "RESOLUTION_TYPES = [''ldpi'', ''mdpi'', ''hdpi'', ''xhdpi'', ''xxhdpi'', ''xxxhdpi'']"

definition RESOLUTION_SIZES :: "(string \<times> int) list" where
  "RESOLUTION_SIZES =
     [(''ldpi'', 36), (''mdpi'', 48), (''hdpi'', 72),
      (''xhdpi'', 96), (''xxhdpi'', 144), (''xxxhdpi'', 192)]"

definition RELATIVE_SIZES :: "(string \<times> rat) list" where
  "RELATIVE_SIZES =
     [(''ldpi'', 3 / 4), (''mdpi'', 1), (''hdpi'', 3 / 2),
      (''xhdpi'', 2), (''xxhdpi'', 3), (''xxxhdpi'', 4)]"

definition PLAYSTORE_SIZE :: int where
  "PLAYSTORE_SIZE = 512"

definition DRAWABLE_FOLDER_PATH :: "string \<Rightarrow> string" where
  "DRAWABLE_FOLDER_PATH resolution_type = ''res/drawable-'' @ resolution_type"

definition PLAYSTORE_FOLDER_PATH :: string where
  "PLAYSTORE_FOLDER_PATH = ''res/playstore''"

subsection \<open>\<open>normalize_file_name\<close>\<close>

text \<open>
  \<^verbatim>\<open>re.sub("@[0-9]+x", "", file_name)\<close> scans the string from the left. At each
  position it tries the pattern: an \<open>@\<close>, one digit or more, an \<open>x\<close>. The digits are
  taken greedily, and giving one back cannot help, since the character after a shorter
  run is a digit and not an \<open>x\<close>; so the pattern matches exactly when the longest run of
  digits after the \<open>@\<close> is not empty and an \<open>x\<close> follows it. A match is dropped and
  the scan goes on after it; where there is none, the character is kept and the scan
  moves one character on. \<open>match_multiplier s\<close> is the rest of \<open>s\<close> after a match at
  its start.
\<close>

definition is_digit :: "char \<Rightarrow> bool" where
  "is_digit c = (c \<in> set ''0123456789'')"

fun match_multiplier :: "string \<Rightarrow> string option" where
  "match_multiplier [] = None"
| "match_multiplier (c # cs) =
     (if c = CHR ''@'' \<and> takeWhile is_digit cs \<noteq> [] then
        (case dropWhile is_digit cs of
           [] \<Rightarrow> None
         | d # ds \<Rightarrow> if d = CHR ''x'' then Some ds else None)
      else None)"

function re_sub_multiplier :: "string \<Rightarrow> string" where
  "re_sub_multiplier [] = []"
| "re_sub_multiplier (c # cs) =
     (case match_multiplier (c # cs) of
        Some rest \<Rightarrow> re_sub_multiplier rest
      | None \<Rightarrow> c # re_sub_multiplier cs)"
  by pat_completeness auto
termination
proof (relation "measure length")
  fix c cs rest
  assume "match_multiplier (c # cs) = Some rest"
  then have "\<exists>d. dropWhile is_digit cs = d # rest"
    by (auto split: if_splits list.splits)
  then obtain d where "dropWhile is_digit cs = d # rest" ..
  then have "length (d # rest) \<le> length cs"
    by (metis length_dropWhile_le)
  then show "(rest, c # cs) \<in> measure length" by simp
qed simp_all

text \<open>\<^verbatim>\<open>.replace('-', '_')\<close> replaces every hyphen.\<close>

definition replace_hyphens :: "string \<Rightarrow> string" where
  "replace_hyphens s = map (\<lambda>c. if c = CHR ''-'' then CHR ''_'' else c) s"

definition normalize_file_name :: "string \<Rightarrow> string" where
  "normalize_file_name file_name = replace_hyphens (re_sub_multiplier file_name)"

text \<open>
  The specification's reading of the normalizer, for comparison with the code: one
  multiplier, the first, is removed, and every hyphen is replaced.
\<close>

fun spec_remove_one_multiplier :: "string \<Rightarrow> string" where
  "spec_remove_one_multiplier [] = []"
| "spec_remove_one_multiplier (c # cs) =
     (case match_multiplier (c # cs) of
        Some rest \<Rightarrow> rest
      | None \<Rightarrow> c # spec_remove_one_multiplier cs)"

definition spec_normalize_file_name :: "string \<Rightarrow> string" where
  "spec_normalize_file_name file_name = replace_hyphens (spec_remove_one_multiplier file_name)"

text \<open>
  \<open>at_digits_at s\<close>: somewhere in \<open>s\<close> an \<open>@\<close> is followed, after zero or more
  digits, by another \<open>@\<close>. Removing a multiplier can bring the two sides of a new one
  together only in such a name.
\<close>

fun at_digits_at :: "string \<Rightarrow> bool" where
  "at_digits_at [] = False"
| "at_digits_at (c # cs) =
     ((c = CHR ''@'' \<and> (case dropWhile is_digit cs of [] \<Rightarrow> False | d # ds \<Rightarrow> d = CHR ''@''))
      \<or> at_digits_at cs)"

subsection \<open>Paths\<close>

text \<open>
  \<open>os.path.basename\<close> and \<open>os.path.join\<close> of \<open>posixpath\<close>: the base name is what
  follows the last slash; a component that starts with a slash replaces what was joined
  so far, any other is appended, after a slash unless the path so far is empty or ends
  with one.
\<close>

definition basename :: "string \<Rightarrow> string" where
  "basename p = rev (takeWhile (\<lambda>c. c \<noteq> CHR ''/'') (rev p))"

definition join_step :: "string \<Rightarrow> string \<Rightarrow> string" where
  "join_step path b =
     (if b \<noteq> [] \<and> hd b = CHR ''/'' then b
      else if path = [] \<or> last path = CHR ''/'' then path @ b
      else path @ ''/'' @ b)"

definition path_join :: "string \<Rightarrow> string list \<Rightarrow> string" where
  "path_join a p = foldl join_step a p"

subsection \<open>The world outside: directories, image files, the imaging library\<close>

text \<open>
  The script acts on the world through four calls: \<open>os.makedirs(path, 0755)\<close>,
  \<open>Image.open(path)\<close>, \<open>image.resize((w, h), ANTIALIAS)\<close> and
  \<open>image.save(path, quality=100)\<close>. The state is the list of the calls made so far,
  oldest first; a call is recorded whether it fails or not. What a call answers is given
  by the environment, as a function of the calls made before it: an exception or a
  normal return, and for \<open>Image.open\<close> the size of the decoded image. Every resize is
  taken from the source image, so a saved file is determined by its path and its size.
  The environment also fixes the order in which the interpreter iterates over the keys
  of the dictionary \<open>RESOLUTION_SIZES\<close>, which the language leaves open: it ranks the
  keys, and \<open>dict_keys\<close> lists every key of the dictionary once, by rank.
\<close>

datatype event =
    MakeDirs string
  | ImageOpen string
  | ImageResize int int
  | ImageSave string int int

record env =
  makedirs_result :: "event list \<Rightarrow> string \<Rightarrow> py_error option"
  open_result :: "event list \<Rightarrow> string \<Rightarrow> py_error + (int \<times> int)"
  resize_result :: "event list \<Rightarrow> int \<Rightarrow> int \<Rightarrow> py_error option"
  save_result :: "event list \<Rightarrow> string \<Rightarrow> int \<Rightarrow> int \<Rightarrow> py_error option"
  key_rank :: "string \<Rightarrow> nat"

definition dict_keys :: "env \<Rightarrow> (string \<times> 'v) list \<Rightarrow> string list" where
  "dict_keys env d = sort_key (key_rank env) (map fst d)"

definition raise_or_return :: "py_error option \<Rightarrow> py_error + unit" where
  "raise_or_return r = (case r of Some e \<Rightarrow> Inl e | None \<Rightarrow> Inr ())"

definition os_makedirs :: "env \<Rightarrow> string \<Rightarrow> event list \<Rightarrow> (py_error + unit) \<times> event list" where
  "os_makedirs env path calls =
     (raise_or_return (makedirs_result env calls path), calls @ [MakeDirs path])"

definition image_open ::
  "env \<Rightarrow> string \<Rightarrow> event list \<Rightarrow> (py_error + (int \<times> int)) \<times> event list" where
  "image_open env path calls = (open_result env calls path, calls @ [ImageOpen path])"

definition image_resize ::
  "env \<Rightarrow> int \<Rightarrow> int \<Rightarrow> event list \<Rightarrow> (py_error + unit) \<times> event list" where
  "image_resize env w h calls =
     (raise_or_return (resize_result env calls w h), calls @ [ImageResize w h])"

definition image_save ::
  "env \<Rightarrow> string \<Rightarrow> int \<Rightarrow> int \<Rightarrow> event list \<Rightarrow> (py_error + unit) \<times> event list" where
  "image_save env path w h calls =
     (raise_or_return (save_result env calls path w h), calls @ [ImageSave path w h])"

subsection \<open>\<open>create_directories\<close> and \<open>create_playstore_directory\<close>\<close>

text \<open>
  \<^verbatim>\<open>try: ... os.makedirs(path, 0755)  except OSError: pass\<close>: an OSError is dropped and
  the loop goes on; any other exception leaves the function.
\<close>

definition makedirs_ignoring_OSError ::
  "env \<Rightarrow> string \<Rightarrow> event list \<Rightarrow> (py_error + unit) \<times> event list" where
  "makedirs_ignoring_OSError env path calls =
     (case os_makedirs env path calls of
        (Inl e, calls') \<Rightarrow> if is_OSError e then (Inr (), calls') else (Inl e, calls')
      | (Inr u, calls') \<Rightarrow> (Inr (), calls'))"

fun create_directories_loop ::
  "env \<Rightarrow> string \<Rightarrow> string list \<Rightarrow> event list \<Rightarrow> (py_error + unit) \<times> event list" where
  "create_directories_loop env output_folder [] calls = (Inr (), calls)"
| "create_directories_loop env output_folder (resolution_type # rest) calls =
     (case makedirs_ignoring_OSError env
             (path_join output_folder [DRAWABLE_FOLDER_PATH resolution_type]) calls of
        (Inl e, calls') \<Rightarrow> (Inl e, calls')
      | (Inr u, calls') \<Rightarrow> create_directories_loop env output_folder rest calls')"

definition create_directories ::
  "env \<Rightarrow> string \<Rightarrow> event list \<Rightarrow> (py_error + unit) \<times> event list" where
  "create_directories env output_folder calls =
     create_directories_loop env output_folder RESOLUTION_TYPES calls"

definition create_playstore_directory ::
  "env \<Rightarrow> string \<Rightarrow> event list \<Rightarrow> (py_error + unit) \<times> event list" where
  "create_playstore_directory env output_folder calls =
     makedirs_ignoring_OSError env (path_join output_folder [PLAYSTORE_FOLDER_PATH]) calls"

subsection \<open>\<open>resize\<close>\<close>

text \<open>
  \<open>bucket_target_size\<close> is the target size of one pass of the loop:
  \<^verbatim>\<open>target_size = RESOLUTION_SIZES.get(resolution_type)\<close>, replaced by
  \<^verbatim>\<open>int(desired_size_mdpi * RELATIVE_SIZES.get(resolution_type))\<close> when
  \<open>desired_size_mdpi > 0\<close>. The product is a float product, the integer being
  converted first. \<open>.get\<close> gives \<open>None\<close> for a missing key, and arithmetic on
  \<open>None\<close> is a TypeError.
\<close>

definition bucket_target_size :: "int \<Rightarrow> string \<Rightarrow> py_error + int" where
  "bucket_target_size desired_size_mdpi resolution_type =
     (if desired_size_mdpi > 0 then
        (case map_of RELATIVE_SIZES resolution_type of
           None \<Rightarrow> Inl TypeError
         | Some factor \<Rightarrow>
             (case py_float_of_int desired_size_mdpi of
                Inl e \<Rightarrow> Inl e
              | Inr d \<Rightarrow> py_int_of_float (float_mul d (Finite factor))))
      else
        (case map_of RESOLUTION_SIZES resolution_type of
           None \<Rightarrow> Inl TypeError
         | Some target_size \<Rightarrow> Inr target_size))"

text \<open>One pass of the loop body after the target size: resize, then save.\<close>

definition resize_and_save ::
  "env \<Rightarrow> string \<Rightarrow> int \<Rightarrow> int \<Rightarrow> int \<Rightarrow> event list \<Rightarrow> (py_error + unit) \<times> event list" where
  "resize_and_save env path width height target_size calls =
     (case get_width_height width height target_size of
        Inl e \<Rightarrow> (Inl e, calls)
      | Inr (new_width, new_height) \<Rightarrow>
          (case image_resize env new_width new_height calls of
             (Inl e, calls') \<Rightarrow> (Inl e, calls')
           | (Inr u, calls') \<Rightarrow> image_save env path new_width new_height calls'))"

fun resize_loop ::
  "env \<Rightarrow> string \<Rightarrow> string \<Rightarrow> int \<Rightarrow> int \<Rightarrow> int \<Rightarrow> string list \<Rightarrow> event list
     \<Rightarrow> (py_error + unit) \<times> event list" where
  "resize_loop env output_folder file_name width height desired_size_mdpi [] calls = (Inr (), calls)"
| "resize_loop env output_folder file_name width height desired_size_mdpi
     (resolution_type # rest) calls =
     (case bucket_target_size desired_size_mdpi resolution_type of
        Inl e \<Rightarrow> (Inl e, calls)
      | Inr target_size \<Rightarrow>
          (case resize_and_save env
                  (path_join output_folder
                     [DRAWABLE_FOLDER_PATH resolution_type, normalize_file_name file_name])
                  width height target_size calls of
             (Inl e, calls') \<Rightarrow> (Inl e, calls')
           | (Inr u, calls') \<Rightarrow>
               resize_loop env output_folder file_name width height desired_size_mdpi rest calls'))"

definition resize_playstore ::
  "env \<Rightarrow> string \<Rightarrow> string \<Rightarrow> int \<Rightarrow> int \<Rightarrow> event list \<Rightarrow> (py_error + unit) \<times> event list" where
  "resize_playstore env output_folder file_name width height calls =
     (case create_playstore_directory env output_folder calls of
        (Inl e, calls') \<Rightarrow> (Inl e, calls')
      | (Inr u, calls') \<Rightarrow>
          resize_and_save env
            (path_join output_folder [PLAYSTORE_FOLDER_PATH, normalize_file_name file_name])
            width height PLAYSTORE_SIZE calls')"

text \<open>
  \<open>resize\<close>. The parameter \<open>desired_size_mdpi\<close> (\<open>None\<close> when the command line has
  no \<open>-s\<close>) is assigned the longer side of the image before it is ever read.
\<close>

definition resize ::
  "env \<Rightarrow> string \<Rightarrow> string \<Rightarrow> int option \<Rightarrow> bool \<Rightarrow> event list
     \<Rightarrow> (py_error + unit) \<times> event list" where
  "resize env output_folder file_path desired_size_mdpi with_playstore calls =
     (case create_directories env output_folder calls of
        (Inl e, calls0) \<Rightarrow> (Inl e, calls0)
      | (Inr u, calls0) \<Rightarrow>
          (let file_name = basename file_path in
           case image_open env file_path calls0 of
             (Inl e, calls1) \<Rightarrow> (Inl e, calls1)
           | (Inr (width, height), calls1) \<Rightarrow>
               (let desired_size_mdpi = (if width > height then width else height) in
                case resize_loop env output_folder file_name width height desired_size_mdpi
                       (dict_keys env RESOLUTION_SIZES) calls1 of
                  (Inl e, calls2) \<Rightarrow> (Inl e, calls2)
                | (Inr u, calls2) \<Rightarrow>
                    if with_playstore
                    then resize_playstore env output_folder file_name width height calls2
                    else (Inr (), calls2))))"

subsection \<open>The directories a history has created\<close>

text \<open>
  \<open>os.makedirs\<close> creates its directory exactly when it returns normally; a call that
  raises has not created it. \<open>created_dirs env before calls\<close> goes through \<open>calls\<close>,
  made after the calls \<open>before\<close>, and lists the path of every \<open>os.makedirs\<close> call
  that returned normally; \<open>directories_created env calls\<close> is the list for a whole
  history.
\<close>

fun created_dirs :: "env \<Rightarrow> event list \<Rightarrow> event list \<Rightarrow> string list" where
  "created_dirs env before [] = []"
| "created_dirs env before (MakeDirs path # rest) =
     (if makedirs_result env before path = None then [path] else [])
       @ created_dirs env (before @ [MakeDirs path]) rest"
| "created_dirs env before (ev # rest) = created_dirs env (before @ [ev]) rest"

definition directories_created :: "env \<Rightarrow> event list \<Rightarrow> string list" where
  "directories_created env calls = created_dirs env [] calls"

subsection \<open>A sample environment\<close>

text \<open>
  A world in which \<open>os.makedirs\<close> fails with EEXIST (errno 17) on a path created
  before, the only image file is \<open>in/icon@2x-test.png\<close>, 100 by 200 pixels, and
  resizing and saving succeed. The keys of a dictionary come in the order \<open>xhdpi\<close>,
  \<open>hdpi\<close>, \<open>xxxhdpi\<close>, \<open>mdpi\<close>, \<open>ldpi\<close>, \<open>xxhdpi\<close>.
\<close>

definition sample_env :: env where
  "sample_env =
     \<lparr> makedirs_result = (\<lambda>calls path. if MakeDirs path \<in> set calls then Some (OSError 17) else None),
       open_result =
         (\<lambda>calls path. if path = ''in/icon@2x-test.png'' then Inr (100, 200) else Inl IOError),
       resize_result = (\<lambda>calls w h. None),
       save_result = (\<lambda>calls path w h. None),
       key_rank =
         (\<lambda>key. case map_of [(''xhdpi'', 0), (''hdpi'', 1), (''xxxhdpi'', 2),
                                (''mdpi'', 3), (''ldpi'', 4), (''xxhdpi'', 5)] key of
                   None \<Rightarrow> 6
                 | Some n \<Rightarrow> n) \<rparr>"

text \<open>
  A world whose file system is read-only and holds no image: every \<open>os.makedirs\<close>
  fails with EACCES (errno 13) and every \<open>Image.open\<close> with an IOError.
\<close>

definition read_only_env :: env where
  "read_only_env =
     \<lparr> makedirs_result = (\<lambda>calls path. Some (OSError 13)),
       open_result = (\<lambda>calls path. Inl IOError),
       resize_result = (\<lambda>calls w h. None),
       save_result = (\<lambda>calls path w h. None),
       key_rank = (\<lambda>key. 0) \<rparr>"

section \<open>Properties of the float arithmetic\<close>

subsection \<open>Powers of two and rounding\<close>

lemma two_pow_pos: "0 < two_pow e"
  by (simp add: two_pow_def)

lemma two_pow_add: "two_pow (a + b) = two_pow a * two_pow b"
  by (simp add: two_pow_def power_int_add)

lemma two_pow_nat: "0 \<le> e \<Longrightarrow> two_pow e = 2 ^ nat e"
  by (simp add: two_pow_def power_int_def)

lemma two_pow_mono: "a \<le> b \<Longrightarrow> two_pow a \<le> two_pow b"
  by (simp add: two_pow_def power_int_increasing)

lemma two_pow_Suc: "two_pow (e + 1) = 2 * two_pow e"
  using two_pow_add [of e 1] by (simp add: two_pow_def)

lemma floor_log2_bounds:
  assumes "0 < x"
  shows "two_pow (floor_log2 x) \<le> x" and "x < two_pow (floor_log2 x + 1)"
proof -
  obtain a b where q: "quotient_of x = (a, b)" by (cases "quotient_of x")
  then have b: "0 < b" and x: "x = of_int a / of_int b"
    by (auto simp: quotient_of_denom_pos quotient_of_div)
  from assms x b have a: "0 < a" by (simp add: zero_less_divide_iff)
  define d where "d = bitlen a - bitlen b"
  have fl: "floor_log2 x = (if two_pow d \<le> x then d else d - 1)"
    by (simp add: floor_log2_def q d_def Let_def)
  have ba: "1 \<le> bitlen a" and bb: "1 \<le> bitlen b"
    using a b by (auto simp: bitlen_alt_def)
  have a1: "two_pow (bitlen a - 1) \<le> of_int a" and a2: "(of_int a :: rat) < two_pow (bitlen a)"
    using bitlen_bounds[OF a] ba
    by (simp_all add: two_pow_nat del: of_int_power flip: of_int_power_le_of_int_cancel_iff of_int_power_less_of_int_cancel_iff)
  have b1: "two_pow (bitlen b - 1) \<le> of_int b" and b2: "(of_int b :: rat) < two_pow (bitlen b)"
    using bitlen_bounds[OF b] bb
    by (simp_all add: two_pow_nat del: of_int_power flip: of_int_power_le_of_int_cancel_iff of_int_power_less_of_int_cancel_iff)
  have lo: "two_pow (d - 1) < x"
  proof -
    have "two_pow (d - 1) * of_int b < two_pow (d - 1) * two_pow (bitlen b)"
      using b2 two_pow_pos by simp
    also have "\<dots> = two_pow (bitlen a - 1)"
      by (simp add: d_def flip: two_pow_add)
    also have "\<dots> \<le> of_int a" by (rule a1)
    finally show ?thesis using b by (simp add: x pos_less_divide_eq)
  qed
  have hi: "x < two_pow (d + 1)"
  proof -
    have "of_int a < two_pow (bitlen a)" by (rule a2)
    also have "\<dots> = two_pow (d + 1) * two_pow (bitlen b - 1)"
      by (simp add: d_def flip: two_pow_add)
    also have "\<dots> \<le> two_pow (d + 1) * of_int b"
      using b1 two_pow_pos by simp
    finally show ?thesis using b by (simp add: x pos_divide_less_eq)
  qed
  show "two_pow (floor_log2 x) \<le> x"
    using lo by (simp add: fl)
  show "x < two_pow (floor_log2 x + 1)"
    using hi by (auto simp: fl not_le)
qed

lemma round_half_even_error: "\<bar>of_int (round_half_even y) - y\<bar> \<le> 1 / 2"
proof -
  have "of_int \<lfloor>y\<rfloor> \<le> y" "y < of_int \<lfloor>y\<rfloor> + 1" by linarith+
  then show ?thesis
    by (auto simp: round_half_even_def Let_def)
qed

lemma round_half_even_of_int: "round_half_even (of_int n) = n"
  by (simp add: round_half_even_def)

lemma two_pow_diff: "two_pow (a - b) = two_pow a / two_pow b"
  by (simp add: two_pow_def power_int_diff)

lemma two_pow_less: "a < b \<Longrightarrow> two_pow a < two_pow b"
  by (simp add: two_pow_def power_int_strict_increasing)

lemma two_pow_less_imp: "two_pow a < two_pow b \<Longrightarrow> a < b"
  using two_pow_mono [of b a] by (auto simp: not_le [symmetric])

lemma round_double_error:
  assumes "x \<noteq> 0"
  shows "\<bar>round_double x - x\<bar> \<le> two_pow (max (floor_log2 \<bar>x\<bar>) (- 1022) - 53)"
proof -
  define e where "e = max (floor_log2 \<bar>x\<bar>) (- 1022)"
  define ulp where "ulp = two_pow (e - 52)"
  have ulp: "0 < ulp" by (simp add: ulp_def two_pow_pos)
  have rd: "round_double x = of_int (round_half_even (x / ulp)) * ulp"
    using assms by (simp add: round_double_def Let_def e_def ulp_def)
  have "round_double x - x = (of_int (round_half_even (x / ulp)) - x / ulp) * ulp"
    using ulp by (simp add: rd algebra_simps)
  then have "\<bar>round_double x - x\<bar> = \<bar>of_int (round_half_even (x / ulp)) - x / ulp\<bar> * ulp"
    using ulp by (simp add: abs_mult)
  also have "\<dots> \<le> (1 / 2) * ulp"
    using round_half_even_error [of "x / ulp"] ulp by (intro mult_right_mono) simp_all
  also have "\<dots> = two_pow (e - 53)"
    using two_pow_Suc [of "e - 53"] by (simp add: ulp_def)
  finally show ?thesis by (simp add: e_def)
qed

lemma floor_log2_ge:
  assumes "two_pow a \<le> x"
  shows "a \<le> floor_log2 x"
proof -
  have "0 < x" using assms two_pow_pos [of a] by linarith
  then have "x < two_pow (floor_log2 x + 1)" by (rule floor_log2_bounds)
  with assms have "two_pow a < two_pow (floor_log2 x + 1)" by linarith
  then show ?thesis using two_pow_less_imp by fastforce
qed

lemma floor_log2_less:
  assumes "0 < x" "x < two_pow a"
  shows "floor_log2 x < a"
proof -
  have "two_pow (floor_log2 x) \<le> x" using assms(1) by (rule floor_log2_bounds)
  with assms have "two_pow (floor_log2 x) < two_pow a" by linarith
  then show ?thesis by (rule two_pow_less_imp)
qed

lemma round_double_relative_error:
  assumes "two_pow (- 1022) \<le> \<bar>x\<bar>"
  shows "\<bar>round_double x - x\<bar> \<le> \<bar>x\<bar> * two_pow (- 53)"
proof -
  have x: "x \<noteq> 0" using assms two_pow_pos [of "- 1022"] by auto
  have e: "- 1022 \<le> floor_log2 \<bar>x\<bar>" using assms by (rule floor_log2_ge)
  have "\<bar>round_double x - x\<bar> \<le> two_pow (floor_log2 \<bar>x\<bar> - 53)"
    using round_double_error [OF x] e by (simp add: max_def)
  also have "\<dots> = two_pow (floor_log2 \<bar>x\<bar>) * two_pow (- 53)"
    using two_pow_add [of "floor_log2 \<bar>x\<bar>" "- 53"] by simp
  also have "\<dots> \<le> \<bar>x\<bar> * two_pow (- 53)"
    using floor_log2_bounds(1) [of "\<bar>x\<bar>"] x two_pow_pos [of "- 53"]
    by (intro mult_right_mono) simp_all
  finally show ?thesis .
qed

lemma round_double_exact:
  assumes k: "\<bar>k\<bar> < 2 ^ 53" and j: "- 1074 \<le> j"
  shows "round_double (of_int k * two_pow j) = of_int k * two_pow j"
proof (cases "k = 0")
  case True
  then show ?thesis by (simp add: round_double_def)
next
  case False
  define x where "x = of_int k * two_pow j"
  have x0: "x \<noteq> 0" using False two_pow_pos [of j] by (simp add: x_def)
  define e where "e = max (floor_log2 \<bar>x\<bar>) (- 1022)"
  define ulp where "ulp = two_pow (e - 52)"
  have "\<bar>x\<bar> = of_int \<bar>k\<bar> * two_pow j"
    using two_pow_pos [of j] by (simp add: x_def abs_mult)
  also have "\<dots> < of_int (2 ^ 53) * two_pow j"
    using k two_pow_pos [of j] by (intro mult_strict_right_mono) (simp_all del: of_int_power of_int_numeral)
  also have "\<dots> = two_pow (53 + j)"
    by (simp add: two_pow_add) (simp add: two_pow_def)
  finally have "floor_log2 \<bar>x\<bar> < 53 + j"
    using x0 by (intro floor_log2_less) simp_all
  with j have e: "e \<le> j + 52" by (simp add: e_def)
  define i where "i = nat (j + 52 - e)"
  have "x / ulp = of_int k * two_pow (j - (e - 52))"
    by (simp add: x_def ulp_def two_pow_diff [of j])
  also have "j - (e - 52) = int i" using e by (simp add: i_def)
  also have "of_int k * two_pow (int i) = of_int (k * 2 ^ i)"
    by (simp add: two_pow_nat)
  finally have "round_half_even (x / ulp) = k * 2 ^ i"
    by (simp only: round_half_even_of_int)
  then have "round_double x = of_int (k * 2 ^ i) * ulp"
    using x0 by (simp add: round_double_def Let_def e_def ulp_def)
  also have "\<dots> = of_int k * (two_pow (int i) * ulp)"
    by (simp add: two_pow_nat)
  also have "two_pow (int i) * ulp = two_pow j"
    using e by (simp add: ulp_def i_def flip: two_pow_add)
  finally show ?thesis by (simp add: x_def)
qed

lemma round_double_of_int:
  "\<bar>k\<bar> < 2 ^ 53 \<Longrightarrow> round_double (of_int k) = of_int k"
  using round_double_exact [of k 0] by (simp add: two_pow_def)

lemma to_double_finite:
  assumes "\<bar>x\<bar> < two_pow 1023"
  shows "to_double x = Finite (round_double x)"
proof (cases "x = 0")
  case True
  then show ?thesis by (simp add: to_double_def round_double_def)
next
  case False
  then have "floor_log2 \<bar>x\<bar> < 1023" using assms by (intro floor_log2_less) simp_all
  then have "max (floor_log2 \<bar>x\<bar>) (- 1022) - 53 \<le> 1023" by simp
  then have "two_pow (max (floor_log2 \<bar>x\<bar>) (- 1022) - 53) \<le> two_pow 1023"
    by (rule two_pow_mono)
  with round_double_error [OF False] have "\<bar>round_double x - x\<bar> \<le> two_pow 1023"
    by linarith
  with assms have "\<bar>round_double x\<bar> < two_pow 1023 + two_pow 1023" by linarith
  also have "\<dots> = 2 ^ 1024"
    using two_pow_Suc [of 1023] by (simp add: two_pow_nat)
  finally show ?thesis by (simp add: to_double_def Let_def)
qed

subsection \<open>The scaled side\<close>

lemma py_float_of_int_exact:
  assumes "\<bar>n\<bar> < 2 ^ 53"
  shows "py_float_of_int n = Inr (of_int n)"
proof -
  have "\<bar>of_int n :: rat\<bar> < 2 ^ 53"
    using assms by (metis of_int_abs of_int_less_numeral_power_cancel_iff)
  also have "\<dots> \<le> two_pow 1023" by (simp add: two_pow_nat)
  finally have "to_double (of_int n) = Finite (round_double (of_int n))"
    by (rule to_double_finite)
  then show ?thesis
    using assms by (simp add: py_float_of_int_def round_double_of_int)
qed

text \<open>The float computation of scale_side, with its error against the exact quotient.\<close>

lemma scale_side_float:
  assumes s: "0 < s" "s \<le> l" and t: "0 < t" and lt: "l * t < 2 ^ 50"
  shows "\<exists>p. scale_side s t l = Inr (truncate_rat p) \<and>
             \<bar>p - of_int (s * t) / of_int l\<bar> < 1 / (2 * of_int l)"
proof -
  define u :: rat where "u = two_pow (- 53)"
  define S T L :: rat where "S = of_int s" and "T = of_int t" and "L = of_int l"
  have l: "0 < l" using s by linarith
  have pos: "0 < S" "0 < T" "0 < L" "S \<le> L" "1 \<le> S" "1 \<le> T" "1 \<le> L"
    using s t l by (simp_all add: S_def T_def L_def)
  have "l * 1 \<le> l * t" using l t by (intro mult_left_mono) simp_all
  then have l50: "l < 2 ^ 50" using lt by simp
  have "1 * t \<le> l * t" using l t by (intro mult_right_mono) simp_all
  then have t50: "t < 2 ^ 50" using lt by simp
  have s50: "s < 2 ^ 50" using s l50 by simp
  have LT: "L * T < 2 ^ 50"
    using lt unfolding L_def T_def
    by (metis of_int_less_numeral_power_cancel_iff of_int_mult)
  have L50: "L < 2 ^ 50" and T50: "T < 2 ^ 50"
    using l50 t50 by (simp_all add: L_def T_def)
  have u: "u = 1 / 2 ^ 53" by (simp add: u_def two_pow_def power_int_minus divide_simps)
  have fl: "py_float_of_int l = Inr L" "py_float_of_int t = Inr T" "py_float_of_int s = Inr S"
    using l50 t50 s50 s t l by (simp_all add: py_float_of_int_exact L_def T_def S_def)
  define q where "q = round_double (T / L)"
  have TL_lo: "1 / 2 ^ 50 < T / L"
    using pos L50 by (simp add: divide_simps)
  have TL_hi: "T / L \<le> T"
    using pos by (simp add: divide_simps mult_le_cancel_left1)
  have TL_norm: "two_pow (- 1022) \<le> \<bar>T / L\<bar>"
  proof -
    have "two_pow (- 1022) \<le> two_pow (- 50)" by (rule two_pow_mono) simp
    also have "\<dots> = 1 / 2 ^ 50" by (simp add: two_pow_def power_int_minus divide_simps)
    finally show ?thesis using TL_lo by linarith
  qed
  have q_err: "\<bar>q - T / L\<bar> \<le> T / L * u"
    using round_double_relative_error [OF TL_norm] pos by (simp add: q_def u_def)
  have q_fin: "to_double (T / L) = Finite q"
  proof -
    have "\<bar>T / L\<bar> < 2 ^ 50" using TL_hi T50 pos by simp
    also have "\<dots> \<le> two_pow 1023" by (simp add: two_pow_nat)
    finally show ?thesis unfolding q_def by (rule to_double_finite)
  qed
  have q_lo: "T / L * (1 - u) \<le> q" and q_hi: "q \<le> T / L * (1 + u)"
    using q_err by (simp_all add: abs_le_iff algebra_simps add_divide_distrib diff_divide_distrib)
  have q_pos: "1 / 2 ^ 51 < q"
  proof -
    have "1 / 2 ^ 51 = (1 / 2 ^ 50) * (1 / 2 :: rat)" by simp
    also have "\<dots> < T / L * (1 / 2)"
      by (rule mult_strict_right_mono [OF TL_lo]) simp
    also have "\<dots> \<le> T / L * (1 - u)"
      using pos by (intro mult_left_mono) (simp_all add: u)
    finally show ?thesis using q_lo by linarith
  qed
  define p where "p = round_double (S * q)"
  have Sq_lo: "1 / 2 ^ 51 < S * q"
  proof -
    have "0 < q" using q_pos by (simp add: order.strict_trans [rotated])
    then have "q \<le> S * q" using pos by simp
    with q_pos show ?thesis by linarith
  qed
  have Sq_hi: "S * q \<le> S * T / L * (1 + u)"
    using mult_left_mono [OF q_hi, of S] pos by (simp add: algebra_simps)
  have STL: "S * T / L \<le> T"
    using pos by (simp add: divide_simps mult.commute mult_right_mono)
  have Sq_norm: "two_pow (- 1022) \<le> \<bar>S * q\<bar>"
  proof -
    have "two_pow (- 1022) \<le> two_pow (- 51)" by (rule two_pow_mono) simp
    also have "\<dots> = 1 / 2 ^ 51" by (simp add: two_pow_def power_int_minus divide_simps)
    finally show ?thesis using Sq_lo by linarith
  qed
  have p_err: "\<bar>p - S * q\<bar> \<le> S * q * u"
    using round_double_relative_error [OF Sq_norm] Sq_lo by (simp add: p_def u_def)
  have Sq_T: "S * q \<le> T * (1 + u)"
  proof -
    have "S * T / L * (1 + u) \<le> T * (1 + u)"
      using STL by (intro mult_right_mono) (simp_all add: u)
    with Sq_hi show ?thesis by linarith
  qed
  have p_fin: "to_double (S * q) = Finite p"
  proof -
    have "T * (1 + u) \<le> T * 2" using pos by (intro mult_left_mono) (simp_all add: u)
    with Sq_T T50 have "S * q < 2 ^ 51" by simp
    with Sq_lo have "\<bar>S * q\<bar> < 2 ^ 51" by simp
    also have "\<dots> \<le> two_pow 1023" by (simp add: two_pow_nat)
    finally show ?thesis unfolding p_def by (rule to_double_finite)
  qed
  have res: "scale_side s t l = Inr (truncate_rat p)"
    using pos q_fin p_fin by (simp add: scale_side_def fl float_div_def)
  have e1: "\<bar>S * q - S * T / L\<bar> \<le> T * u"
  proof -
    have "S * q - S * T / L = S * (q - T / L)" by (simp add: algebra_simps)
    then have "\<bar>S * q - S * T / L\<bar> = S * \<bar>q - T / L\<bar>"
      using pos by (simp add: abs_mult)
    also have "\<dots> \<le> S * (T / L * u)"
      using q_err pos by (intro mult_left_mono) simp_all
    also have "\<dots> = S * T / L * u" by simp
    also have "\<dots> \<le> T * u"
      using STL by (intro mult_right_mono) (simp_all add: u)
    finally show ?thesis .
  qed
  have e2: "\<bar>p - S * q\<bar> \<le> T * 2 * u"
  proof -
    have "S * q * u \<le> T * (1 + u) * u"
      using Sq_T by (intro mult_right_mono) (simp_all add: u)
    also have "\<dots> \<le> T * 2 * u"
      using pos by (intro mult_right_mono mult_left_mono) (simp_all add: u)
    finally show ?thesis using p_err by linarith
  qed
  have "\<bar>p - S * T / L\<bar> \<le> T * 3 * u"
    using e1 e2 by linarith
  also have "\<dots> < 1 / (2 * L)"
  proof -
    have "T * 3 * u * (2 * L) = (L * T) * (6 / 2 ^ 53)" by (simp add: u)
    also have "\<dots> < 2 ^ 50 * (6 / 2 ^ 53)"
      using LT by (intro mult_strict_right_mono) simp_all
    also have "\<dots> < 1" by simp
    finally show ?thesis using pos by (simp add: pos_less_divide_eq)
  qed
  finally have "\<bar>p - of_int (s * t) / of_int l\<bar> < 1 / (2 * of_int l)"
    by (simp add: S_def T_def L_def)
  with res show ?thesis by blast
qed

lemma scale_side_value:
  assumes s: "0 < s" "s \<le> l" and t: "0 < t" and lt: "l * t < 2 ^ 50"
  shows "scale_side s t l = Inr (s * t div l) \<or>
         (scale_side s t l = Inr (s * t div l - 1) \<and> l dvd s * t)"
proof -
  obtain p where res: "scale_side s t l = Inr (truncate_rat p)"
    and err: "\<bar>p - of_int (s * t) / of_int l\<bar> < 1 / (2 * of_int l)"
    using scale_side_float [OF assms] by blast
  define a k r where "a = s * t" and "k = a div l" and "r = a mod l"
  define L :: rat where "L = of_int l"
  have l: "0 < l" using s by linarith
  have L: "0 < L" "1 \<le> L" using l by (simp_all add: L_def)
  have a: "1 \<le> a" using s t by (simp add: a_def pos_imp_zdiv_pos_iff mult_pos_pos int_one_le_iff_zero_less)
  have akr: "a = l * k + r" by (simp add: k_def r_def)
  have r: "0 \<le> r" "r < l" using l by (simp_all add: r_def)
  have A: "(of_int a :: rat) = L * of_int k + of_int r"
    by (simp add: akr L_def)
  have "\<bar>p - of_int a / L\<bar> * L < 1 / (2 * L) * L"
    using err L by (intro mult_strict_right_mono) (simp_all add: a_def L_def)
  moreover have "\<bar>p - of_int a / L\<bar> * L = \<bar>p * L - of_int a\<bar>"
  proof -
    have "p * L - of_int a = (p - of_int a / L) * L" using L by (simp add: algebra_simps)
    then show ?thesis using L by (simp add: abs_mult)
  qed
  ultimately have pL: "\<bar>p * L - of_int a\<bar> < 1 / 2" using L by simp
  then have pL1: "of_int a - 1 / 2 < p * L" and pL2: "p * L < of_int a + 1 / 2"
    by linarith+
  have p_pos: "0 < p"
  proof -
    have "1 \<le> (of_int a :: rat)" using a by simp
    with pL1 have "0 < p * L" by linarith
    then show ?thesis using L by (simp add: zero_less_mult_iff)
  qed
  then have tr: "truncate_rat p = \<lfloor>p\<rfloor>" by (simp add: truncate_rat_def)
  have hi: "p < of_int k + 1"
  proof -
    have "r + 1 \<le> l" using r by simp
    then have "of_int r + 1 \<le> L" unfolding L_def by (metis of_int_1 of_int_add of_int_le_iff)
    moreover have "(of_int k + 1) * L = L * of_int k + L" by (simp add: algebra_simps)
    ultimately have "p * L < (of_int k + 1) * L"
      using pL2 A by linarith
    then show ?thesis using L by simp
  qed
  show ?thesis
  proof (cases "r = 0")
    case True
    have "(of_int k - 1) * L = L * of_int k - L" by (simp add: algebra_simps)
    moreover have "(of_int a :: rat) = L * of_int k" using A True by simp
    ultimately have "(of_int k - 1) * L < p * L"
      using pL1 L by linarith
    then have "of_int (k - 1) < p" using L by simp
    then have "k - 1 \<le> \<lfloor>p\<rfloor>" by (simp add: le_floor_iff)
    moreover have "p < of_int (k + 1)" using hi by simp
    then have "\<lfloor>p\<rfloor> < k + 1" by (simp only: floor_less_iff)
    ultimately have "\<lfloor>p\<rfloor> = k \<or> \<lfloor>p\<rfloor> = k - 1" by linarith
    moreover have "l dvd s * t" using True by (simp add: r_def a_def dvd_eq_mod_eq_0)
    ultimately show ?thesis by (auto simp: res tr k_def a_def)
  next
    case False
    then have "1 \<le> (of_int r :: rat)" using r by simp
    moreover have "of_int k * L = L * of_int k" by simp
    ultimately have "of_int k * L < p * L"
      using pL1 A by linarith
    then have "of_int k < p" using L by simp
    with hi have "\<lfloor>p\<rfloor> = k" by (simp add: floor_eq_iff)
    then show ?thesis by (simp add: res tr k_def a_def)
  qed
qed

lemma div_le_of_mult_le:
  fixes l :: int
  assumes "0 < l" "a \<le> l * t"
  shows "a div l \<le> t"
proof -
  have "a div l \<le> l * t div l" using assms by (intro zdiv_mono1) simp_all
  then show ?thesis using assms by simp
qed

lemma div_less_of_less_mult:
  fixes l :: int
  assumes "0 < l" "a < l * t"
  shows "a div l < t"
proof -
  have "0 \<le> a mod l" using assms by simp
  moreover have "l * (a div l) + a mod l = a" by simp
  ultimately have "l * (a div l) < l * t" using assms by linarith
  then show ?thesis using assms by (simp add: mult_less_cancel_left_pos)
qed

lemma scale_side_le:
  assumes "0 < s" "s \<le> l" "0 < t" "l * t < 2 ^ 50"
  shows "\<exists>n. scale_side s t l = Inr n \<and> 0 \<le> n \<and> n \<le> t \<and> (s < l \<longrightarrow> n < t)"
proof -
  have l: "0 < l" using assms by linarith
  have "s * t \<le> l * t" using assms by (intro mult_right_mono) simp_all
  then have k: "s * t div l \<le> t"
    using l by (intro div_le_of_mult_le)
  have k2: "s * t div l < t" if "s < l"
  proof -
    have "s * t < l * t" using that assms by simp
    then show ?thesis using l by (intro div_less_of_less_mult)
  qed
  have st: "0 < s * t" using assms by simp
  then have k0: "0 \<le> s * t div l" using l by (simp add: pos_imp_zdiv_nonneg_iff)
  have k1: "1 \<le> s * t div l" if "l dvd s * t"
    using that st l int_one_le_iff_zero_less pos_imp_zdiv_pos_iff zdvd_imp_le
    by presburger
  from scale_side_value [OF assms]
  show ?thesis
  proof
    assume "scale_side s t l = Inr (s * t div l)"
    then show ?thesis using k k0 k2 by simp
  next
    assume "scale_side s t l = Inr (s * t div l - 1) \<and> l dvd s * t"
    then show ?thesis using k k1 k2 by auto
  qed
qed

subsection \<open>\<open>get_width_height\<close> on sizes of real images\<close>

lemma scale_side_eval:
  assumes "0 < l" "l < 2 ^ 53" "0 \<le> t" "t < 2 ^ 53" "0 \<le> s" "s < 2 ^ 53"
    and q: "round_double (of_int t / of_int l) = q"
    and sq: "\<bar>of_int s * q\<bar> < 2 ^ 1000"
    and p: "round_double (of_int s * q) = p"
  shows "scale_side s t l = Inr (truncate_rat p)"
proof -
  have fl: "py_float_of_int l = Inr (of_int l)" "py_float_of_int t = Inr (of_int t)"
    "py_float_of_int s = Inr (of_int s)"
    using assms by (simp_all add: py_float_of_int_exact)
  have "\<bar>of_int t / of_int l :: rat\<bar> \<le> of_int t"
    using assms(1,3) by (simp add: divide_simps mult_le_cancel_left1)
  also have "\<dots> < 2 ^ 53" using assms(4) by simp
  also have "\<dots> \<le> two_pow 1023" by (simp add: two_pow_nat)
  finally have d: "to_double (of_int t / of_int l) = Finite q"
    using to_double_finite q by simp
  have "\<bar>of_int s * q\<bar> < two_pow 1023"
    using sq by (simp add: two_pow_nat)
  then have m: "to_double (of_int s * q) = Finite p"
    using to_double_finite p by simp
  show ?thesis
    using assms(1) by (simp add: scale_side_def fl float_div_def d m)
qed

lemma get_width_height_bounded:
  assumes "0 < width" "0 < height" "0 < target_size"
    and "max width height * target_size < 2 ^ 50"
  shows "\<exists>new_width new_height.
           get_width_height width height target_size = Inr (new_width, new_height) \<and>
           max new_width new_height = target_size \<and>
           0 \<le> new_width \<and> 0 \<le> new_height \<and>
           (width > height \<longrightarrow> new_width = target_size \<and> new_height < target_size) \<and>
           (width \<le> height \<longrightarrow> new_height = target_size) \<and>
           (width < height \<longrightarrow> new_width < target_size)"
proof (cases "width > height")
  case True
  then have "height \<le> width" "width * target_size < 2 ^ 50"
    using assms by (simp_all add: max_def)
  from scale_side_le [OF assms(2) this(1) assms(3) this(2)] True
  show ?thesis by (auto simp: get_width_height_def)
next
  case False
  then have "width \<le> height" "height * target_size < 2 ^ 50"
    using assms by (simp_all add: max_def)
  from scale_side_le [OF assms(1) this(1) assms(3) this(2)] False
  show ?thesis by (auto simp: get_width_height_def)
qed


lemma scale_196_512_196: "scale_side 196 512 196 = Inr 511"
proof -
  have q: "round_double (of_int 512 / of_int 196) = 5882252574524729 / 2251799813685248"
    by code_simp
  have p: "round_double (of_int 196 * (5882252574524729 / 2251799813685248))
             = 9007199254740991 / 17592186044416"
    by code_simp
  have t: "truncate_rat (9007199254740991 / 17592186044416) = 511"
    by code_simp
  show ?thesis
    using scale_side_eval [OF _ _ _ _ _ _ q _ p] by (simp add: t)
qed

section \<open>Properties of the file name normalizer\<close>

lemma is_digit_simps [simp]:
  "\<not> is_digit CHR ''@''" "\<not> is_digit CHR ''x''" "\<not> is_digit CHR ''-''" "\<not> is_digit CHR ''_''"
  by (simp_all add: is_digit_def)

lemma match_multiplier_not_at: "c \<noteq> CHR ''@'' \<Longrightarrow> match_multiplier (c # cs) = None"
  by simp

lemma match_multiplier_match:
  assumes "ds \<noteq> []" "\<forall>d \<in> set ds. is_digit d"
  shows "match_multiplier (CHR ''@'' # ds @ CHR ''x'' # post) = Some post"
proof -
  have "takeWhile is_digit (ds @ CHR ''x'' # post) = ds"
    using assms(2) by (simp add: takeWhile_append2)
  moreover have "dropWhile is_digit (ds @ CHR ''x'' # post) = CHR ''x'' # post"
    using assms(2) by (simp add: dropWhile_append2)
  ultimately show ?thesis using assms(1) by simp
qed

lemma match_multiplier_before_at:
  "match_multiplier (c # cs @ CHR ''@'' # rest) =
     map_option (\<lambda>r. r @ CHR ''@'' # rest) (match_multiplier (c # cs))"
proof (cases "\<forall>d \<in> set cs. is_digit d")
  case True
  then have a: "takeWhile is_digit (cs @ CHR ''@'' # rest) = cs"
    and b: "dropWhile is_digit (cs @ CHR ''@'' # rest) = CHR ''@'' # rest"
    by (simp_all add: takeWhile_append2 dropWhile_append2)
  have c: "dropWhile is_digit cs = []" using True by simp
  show ?thesis by (simp add: a b c)
next
  case False
  then have a: "takeWhile is_digit (cs @ CHR ''@'' # rest) = takeWhile is_digit cs"
    and b: "dropWhile is_digit (cs @ CHR ''@'' # rest) = dropWhile is_digit cs @ CHR ''@'' # rest"
    by (auto simp: takeWhile_append1 dropWhile_append1)
  obtain y ys where d: "dropWhile is_digit cs = y # ys"
    using False by (cases "dropWhile is_digit cs") auto
  show ?thesis by (simp add: a b d)
qed

lemma re_sub_multiplier_append_match:
  assumes "ds \<noteq> []" "\<forall>d \<in> set ds. is_digit d"
  shows "re_sub_multiplier (pre @ CHR ''@'' # ds @ CHR ''x'' # post) =
           re_sub_multiplier pre @ re_sub_multiplier post"
proof (induction pre rule: re_sub_multiplier.induct)
  case 1
  show ?case using match_multiplier_match [OF assms] by simp
next
  case (2 c cs)
  let ?m = "CHR ''@'' # ds @ CHR ''x'' # post"
  show ?case
  proof (cases "match_multiplier (c # cs)")
    case None
    then have "match_multiplier (c # cs @ ?m) = None"
      by (simp only: match_multiplier_before_at option.map)
    then have "re_sub_multiplier ((c # cs) @ ?m) = c # re_sub_multiplier (cs @ ?m)"
      by (simp del: match_multiplier.simps)
    also have "\<dots> = c # re_sub_multiplier cs @ re_sub_multiplier post"
      using 2(1) [OF None] by simp
    also have "\<dots> = re_sub_multiplier (c # cs) @ re_sub_multiplier post"
      using None by (simp del: match_multiplier.simps)
    finally show ?thesis .
  next
    case (Some r)
    then have "match_multiplier (c # cs @ ?m) = Some (r @ ?m)"
      by (simp only: match_multiplier_before_at option.map)
    then have "re_sub_multiplier ((c # cs) @ ?m) = re_sub_multiplier (r @ ?m)"
      by (simp del: match_multiplier.simps)
    also have "\<dots> = re_sub_multiplier r @ re_sub_multiplier post"
      using 2(2) [OF Some] by simp
    also have "\<dots> = re_sub_multiplier (c # cs) @ re_sub_multiplier post"
      using Some by (simp del: match_multiplier.simps)
    finally show ?thesis .
  qed
qed

lemma re_sub_multiplier_no_match:
  "\<forall>i < length s. match_multiplier (drop i s) = None \<Longrightarrow> re_sub_multiplier s = s"
proof (induction s)
  case Nil
  show ?case by simp
next
  case (Cons c cs)
  from Cons.prems have "match_multiplier (drop 0 (c # cs)) = None" by blast
  then have m: "match_multiplier (c # cs) = None" by simp
  have "\<forall>i < length cs. match_multiplier (drop i cs) = None"
  proof (intro allI impI)
    fix i assume "i < length cs"
    then have "match_multiplier (drop (Suc i) (c # cs)) = None"
      using Cons.prems by (metis Suc_less_eq length_Cons)
    then show "match_multiplier (drop i cs) = None" by simp
  qed
  then have "re_sub_multiplier cs = cs" by (rule Cons.IH)
  with m show ?case by simp
qed

lemma hyphen_not_in_replace_hyphens: "CHR ''-'' \<notin> set (replace_hyphens s)"
  by (auto simp: replace_hyphens_def)

lemma replace_hyphens_append: "replace_hyphens (a @ b) = replace_hyphens a @ replace_hyphens b"
  by (simp add: replace_hyphens_def)

lemma normalize_example: "normalize_file_name ''icon@2x-test.png'' = ''icon_test.png''"
  by (simp add: normalize_file_name_def replace_hyphens_def is_digit_def)


lemma match_multiplier_Some_suffix:
  assumes "match_multiplier (c # cs) = Some rest"
  shows "c = CHR ''@'' \<and> takeWhile is_digit cs \<noteq> [] \<and> dropWhile is_digit cs = CHR ''x'' # rest"
  using assms by (auto split: if_splits list.splits)

lemma at_digits_at_append: "at_digits_at ys \<Longrightarrow> at_digits_at (xs @ ys)"
  by (induction xs) auto

lemma at_digits_at_suffix:
  assumes "match_multiplier (c # cs) = Some rest" "at_digits_at rest"
  shows "at_digits_at (c # cs)"
proof -
  have "dropWhile is_digit cs = CHR ''x'' # rest"
    using match_multiplier_Some_suffix [OF assms(1)] by simp
  then have "cs = takeWhile is_digit cs @ CHR ''x'' # rest"
    by (metis takeWhile_dropWhile_id)
  then have "c # cs = (c # takeWhile is_digit cs @ [CHR ''x'']) @ rest" by simp
  then show ?thesis using at_digits_at_append [OF assms(2)] by metis
qed

lemma re_sub_multiplier_digits:
  "\<forall>d \<in> set ds. is_digit d \<Longrightarrow> re_sub_multiplier (ds @ r) = ds @ re_sub_multiplier r"
proof (induction ds)
  case Nil
  show ?case by simp
next
  case (Cons d ds)
  then have "d \<noteq> CHR ''@''" by auto
  then show ?case using Cons by simp
qed

lemma re_sub_multiplier_idem:
  "\<not> at_digits_at s \<Longrightarrow> re_sub_multiplier (re_sub_multiplier s) = re_sub_multiplier s"
proof (induction s rule: re_sub_multiplier.induct)
  case 1
  show ?case by simp
next
  case (2 c cs)
  show ?case
  proof (cases "match_multiplier (c # cs)")
    case (Some rest)
    then have "\<not> at_digits_at rest" using 2(3) at_digits_at_suffix by blast
    then show ?thesis using 2(2) [OF Some] Some by (simp del: match_multiplier.simps)
  next
    case None
    have cs: "\<not> at_digits_at cs" using 2(3) by simp
    have ih: "re_sub_multiplier (re_sub_multiplier cs) = re_sub_multiplier cs"
      using 2(1) [OF None cs] .
    have m: "match_multiplier (c # re_sub_multiplier cs) = None"
    proof (cases "c = CHR ''@''")
      case False
      then show ?thesis by simp
    next
      case True
      define ds r where "ds = takeWhile is_digit cs" and "r = dropWhile is_digit cs"
      have cs_eq: "cs = ds @ r" by (simp add: ds_def r_def)
      have dig: "\<forall>d \<in> set ds. is_digit d"
        unfolding ds_def by (meson set_takeWhileD)
      have sub: "re_sub_multiplier cs = ds @ re_sub_multiplier r"
        unfolding cs_eq using dig by (rule re_sub_multiplier_digits)
      show ?thesis
      proof (cases r)
        case Nil
        then have e: "re_sub_multiplier cs = ds" using sub by simp
        have d: "dropWhile is_digit ds = []" using dig by simp
        show ?thesis by (simp add: e d)
      next
        case (Cons y r')
        have y: "\<not> is_digit y"
          using Cons unfolding r_def by (metis dropWhile_eq_Cons_conv)
        have "y \<noteq> CHR ''@''" using 2(3) True Cons by (simp add: r_def)
        then have "re_sub_multiplier r = y # re_sub_multiplier r'"
          using Cons by simp
        then have e: "re_sub_multiplier cs = ds @ y # re_sub_multiplier r'"
          using sub by simp
        have t: "takeWhile is_digit (ds @ y # re_sub_multiplier r') = ds"
          and d: "dropWhile is_digit (ds @ y # re_sub_multiplier r') = y # re_sub_multiplier r'"
          using dig y by (simp_all add: takeWhile_append2 dropWhile_append2)
        have "\<not> (ds \<noteq> [] \<and> y = CHR ''x'')"
          using None True Cons by (auto simp: ds_def r_def)
        then show ?thesis by (auto simp: e t d True)
      qed
    qed
    have "re_sub_multiplier (c # cs) = c # re_sub_multiplier cs"
      using None by (simp del: match_multiplier.simps)
    moreover have "re_sub_multiplier (c # re_sub_multiplier cs)
                     = c # re_sub_multiplier (re_sub_multiplier cs)"
      using m by (simp del: match_multiplier.simps)
    ultimately show ?thesis using ih by simp
  qed
qed

lemma match_multiplier_replace_hyphens:
  "match_multiplier (replace_hyphens s) = map_option replace_hyphens (match_multiplier s)"
proof (cases s)
  case Nil
  then show ?thesis by (simp add: replace_hyphens_def)
next
  case (Cons c cs)
  let ?f = "\<lambda>c. if c = CHR ''-'' then CHR ''_'' else c"
  have dig: "is_digit \<circ> ?f = is_digit" by (auto simp: fun_eq_iff)
  have t: "takeWhile is_digit (map ?f cs) = map ?f (takeWhile is_digit cs)"
    and d: "dropWhile is_digit (map ?f cs) = map ?f (dropWhile is_digit cs)"
    by (simp_all add: takeWhile_map dropWhile_map dig)
  show ?thesis
  proof (cases "dropWhile is_digit cs")
    case Nil
    show ?thesis
      unfolding Cons replace_hyphens_def by (simp add: t d Nil)
  next
    case (Cons z zs)
    have "\<not> is_digit z" using Cons by (metis dropWhile_eq_Cons_conv)
    then show ?thesis
      unfolding \<open>s = c # cs\<close> replace_hyphens_def by (auto simp: t d Cons)
  qed
qed

lemma re_sub_multiplier_replace_hyphens:
  "re_sub_multiplier (replace_hyphens s) = replace_hyphens (re_sub_multiplier s)"
proof (induction s rule: re_sub_multiplier.induct)
  case 1
  show ?case by (simp add: replace_hyphens_def)
next
  case (2 c cs)
  have r: "replace_hyphens (c # cs) = (if c = CHR ''-'' then CHR ''_'' else c) # replace_hyphens cs"
    by (simp add: replace_hyphens_def)
  show ?case
  proof (cases "match_multiplier (c # cs)")
    case None
    then have "match_multiplier (replace_hyphens (c # cs)) = None"
      by (simp only: match_multiplier_replace_hyphens option.map)
    then have "re_sub_multiplier (replace_hyphens (c # cs))
                 = (if c = CHR ''-'' then CHR ''_'' else c) # re_sub_multiplier (replace_hyphens cs)"
      unfolding r by (simp del: match_multiplier.simps)
    also have "\<dots> = replace_hyphens (c # re_sub_multiplier cs)"
      using 2(1) [OF None] by (simp add: replace_hyphens_def)
    finally show ?thesis using None by (simp del: match_multiplier.simps)
  next
    case (Some rest)
    then have "match_multiplier (replace_hyphens (c # cs)) = Some (replace_hyphens rest)"
      by (simp only: match_multiplier_replace_hyphens option.map)
    then have "re_sub_multiplier (replace_hyphens (c # cs))
                 = re_sub_multiplier (replace_hyphens rest)"
      unfolding r by (simp del: match_multiplier.simps)
    then show ?thesis using 2(2) [OF Some] Some by (simp del: match_multiplier.simps)
  qed
qed

lemma replace_hyphens_idem: "replace_hyphens (replace_hyphens s) = replace_hyphens s"
  by (simp add: replace_hyphens_def)

lemma at_digits_at_two_ats:
  "at_digits_at s \<Longrightarrow> 2 \<le> length (filter (\<lambda>c. c = CHR ''@'') s)"
proof (induction s)
  case Nil
  then show ?case by simp
next
  case (Cons c cs)
  show ?case
  proof (cases "at_digits_at cs")
    case True
    then show ?thesis using Cons.IH by simp
  next
    case False
    then obtain ds where c: "c = CHR ''@''" and d: "dropWhile is_digit cs = CHR ''@'' # ds"
      using Cons.prems by (auto split: list.splits)
    have "CHR ''@'' \<in> set (dropWhile is_digit cs)" by (simp add: d)
    then have "CHR ''@'' \<in> set cs" by (meson set_dropWhileD)
    then have "filter (\<lambda>c. c = CHR ''@'') cs \<noteq> []"
      by (simp add: filter_empty_conv)
    then have "1 \<le> length (filter (\<lambda>c. c = CHR ''@'') cs)"
      by (cases "filter (\<lambda>c. c = CHR ''@'') cs") simp_all
    then show ?thesis using c by simp
  qed
qed

section \<open>Properties of the directory and image operations\<close>

lemma set_dict_keys: "set (dict_keys env d) = fst ` set d"
  by (simp add: dict_keys_def)

lemma set_dict_keys_RESOLUTION_SIZES:
  "set (dict_keys env RESOLUTION_SIZES) = set RESOLUTION_TYPES"
  unfolding set_dict_keys by (simp add: RESOLUTION_SIZES_def RESOLUTION_TYPES_def)

lemma distinct_dict_keys_RESOLUTION_SIZES: "distinct (dict_keys env RESOLUTION_SIZES)"
  unfolding dict_keys_def distinct_sort by (simp add: RESOLUTION_SIZES_def)

lemma raise_or_return_simps [simp]:
  "raise_or_return None = Inr ()" "raise_or_return (Some e) = Inl e"
  by (simp_all add: raise_or_return_def)

lemma makedirs_ignoring_OSError_only:
  assumes "\<forall>calls path e. makedirs_result env calls path = Some e \<longrightarrow> is_OSError e"
  shows "makedirs_ignoring_OSError env path calls = (Inr (), calls @ [MakeDirs path])"
proof (cases "makedirs_result env calls path")
  case None
  then show ?thesis by (simp add: makedirs_ignoring_OSError_def os_makedirs_def)
next
  case (Some e)
  then have "is_OSError e" using assms by blast
  then show ?thesis using Some by (simp add: makedirs_ignoring_OSError_def os_makedirs_def)
qed

lemma create_directories_loop_only:
  assumes "\<forall>calls path e. makedirs_result env calls path = Some e \<longrightarrow> is_OSError e"
  shows "create_directories_loop env output_folder rts calls =
           (Inr (), calls @ map (\<lambda>rt. MakeDirs (path_join output_folder [DRAWABLE_FOLDER_PATH rt])) rts)"
proof (induction rts arbitrary: calls)
  case Nil
  show ?case by simp
next
  case (Cons rt rts)
  show ?case
    by (simp add: makedirs_ignoring_OSError_only [OF assms] Cons.IH)
qed

lemma resize_and_save_success:
  assumes "resize_and_save env path width height target_size calls = (Inr (), calls')"
  shows "\<exists>new_width new_height.
           get_width_height width height target_size = Inr (new_width, new_height) \<and>
           calls' = calls @ [ImageResize new_width new_height, ImageSave path new_width new_height]"
  using assms
  by (auto simp: resize_and_save_def image_resize_def image_save_def raise_or_return_def
           split: sum.splits prod.splits option.splits)

lemma resize_loop_success:
  assumes "resize_loop env output_folder file_name width height desired rts calls = (Inr (), calls')"
  shows "\<exists>evs. calls' = calls @ evs \<and>
           (\<forall>rt \<in> set rts. \<exists>target_size new_width new_height.
              bucket_target_size desired rt = Inr target_size \<and>
              get_width_height width height target_size = Inr (new_width, new_height) \<and>
              ImageSave (path_join output_folder [DRAWABLE_FOLDER_PATH rt, normalize_file_name file_name])
                new_width new_height \<in> set evs)"
  using assms
proof (induction rts arbitrary: calls)
  case Nil
  then show ?case by simp
next
  case (Cons rt rts)
  let ?path = "\<lambda>rt. path_join output_folder [DRAWABLE_FOLDER_PATH rt, normalize_file_name file_name]"
  from Cons.prems obtain target_size where t: "bucket_target_size desired rt = Inr target_size"
    by (auto split: sum.splits)
  from Cons.prems t obtain calls1 where
    s: "resize_and_save env (?path rt) width height target_size calls = (Inr (), calls1)"
    and r: "resize_loop env output_folder file_name width height desired rts calls1 = (Inr (), calls')"
    by (auto split: sum.splits prod.splits)
  from resize_and_save_success [OF s] obtain new_width new_height where
    g: "get_width_height width height target_size = Inr (new_width, new_height)"
    and c1: "calls1 = calls @ [ImageResize new_width new_height, ImageSave (?path rt) new_width new_height]"
    by blast
  from Cons.IH [OF r] obtain evs where
    e: "calls' = calls1 @ evs"
    and rest: "\<forall>rt \<in> set rts. \<exists>target_size new_width new_height.
              bucket_target_size desired rt = Inr target_size \<and>
              get_width_height width height target_size = Inr (new_width, new_height) \<and>
              ImageSave (?path rt) new_width new_height \<in> set evs"
    by blast
  let ?evs = "[ImageResize new_width new_height, ImageSave (?path rt) new_width new_height] @ evs"
  have "calls' = calls @ ?evs" using e c1 by simp
  moreover have "\<forall>rt' \<in> set (rt # rts). \<exists>target_size new_width new_height.
              bucket_target_size desired rt' = Inr target_size \<and>
              get_width_height width height target_size = Inr (new_width, new_height) \<and>
              ImageSave (?path rt') new_width new_height \<in> set ?evs"
  proof
    fix rt' assume "rt' \<in> set (rt # rts)"
    then consider "rt' = rt" | "rt' \<in> set rts" by auto
    then show "\<exists>target_size new_width new_height.
              bucket_target_size desired rt' = Inr target_size \<and>
              get_width_height width height target_size = Inr (new_width, new_height) \<and>
              ImageSave (?path rt') new_width new_height \<in> set ?evs"
    proof cases
      case 1
      then show ?thesis using t g by auto
    next
      case 2
      then show ?thesis using rest by fastforce
    qed
  qed
  ultimately show ?case by blast
qed

lemma resize_success:
  assumes "resize env output_folder file_path desired with_playstore calls = (Inr (), calls')"
  shows "\<exists>calls0 width height calls2.
           create_directories env output_folder calls = (Inr (), calls0) \<and>
           open_result env calls0 file_path = Inr (width, height) \<and>
           resize_loop env output_folder (basename file_path) width height (max width height)
             (dict_keys env RESOLUTION_SIZES) (calls0 @ [ImageOpen file_path]) = (Inr (), calls2) \<and>
           (if with_playstore
            then resize_playstore env output_folder (basename file_path) width height calls2
                   = (Inr (), calls')
            else calls' = calls2)"
proof -
  have m: "(if w > h then w else h) = max w h" for w h :: int by (simp add: max_def)
  obtain r0 calls0 where c0: "create_directories env output_folder calls = (r0, calls0)"
    by (cases "create_directories env output_folder calls")
  with assms have r0: "r0 = Inr ()" by (cases r0) (simp_all add: resize_def)
  obtain width height where o: "open_result env calls0 file_path = Inr (width, height)"
    using assms c0 r0
    by (cases "open_result env calls0 file_path") (auto simp: resize_def image_open_def)
  obtain r2 calls2 where l: "resize_loop env output_folder (basename file_path) width height
      (max width height) (dict_keys env RESOLUTION_SIZES) (calls0 @ [ImageOpen file_path]) = (r2, calls2)"
    by (cases "resize_loop env output_folder (basename file_path) width height
      (max width height) (dict_keys env RESOLUTION_SIZES) (calls0 @ [ImageOpen file_path])")
  have r2: "r2 = Inr ()"
    using assms c0 r0 o l by (cases r2) (simp_all add: resize_def image_open_def m)
  have "if with_playstore
        then resize_playstore env output_folder (basename file_path) width height calls2
               = (Inr (), calls')
        else calls' = calls2"
    using assms c0 r0 o l r2 by (auto simp: resize_def image_open_def m)
  with c0 r0 o l r2 show ?thesis by blast
qed

lemma relative_sizes_quarters:
  assumes "map_of RELATIVE_SIZES rt = Some f"
  shows "\<exists>n. 0 < n \<and> n \<le> 16 \<and> f = of_int n * two_pow (- 2)"
proof -
  have q: "two_pow (- 2) = 1 / 4" by (simp add: two_pow_def power_int_minus)
  from assms have "f \<in> {3 / 4, 1, 3 / 2, 2, 3, 4}"
    by (auto simp: RELATIVE_SIZES_def split: if_splits)
  then consider "f = of_int 3 * two_pow (- 2)" | "f = of_int 4 * two_pow (- 2)"
    | "f = of_int 6 * two_pow (- 2)" | "f = of_int 8 * two_pow (- 2)"
    | "f = of_int 12 * two_pow (- 2)" | "f = of_int 16 * two_pow (- 2)"
    by (auto simp: q)
  then show ?thesis
    by cases (rule exI [of _ 3], simp, rule exI [of _ 4], simp, rule exI [of _ 6], simp,
      rule exI [of _ 8], simp, rule exI [of _ 12], simp, rule exI [of _ 16], simp)
qed

lemma bucket_target_size_exact:
  assumes "0 < b" "b < 2 ^ 31" "map_of RELATIVE_SIZES rt = Some f"
  shows "bucket_target_size b rt = Inr \<lfloor>of_int b * f\<rfloor>"
proof -
  obtain n where n: "0 < n" "n \<le> 16" and f: "f = of_int n * two_pow (- 2)"
    using relative_sizes_quarters [OF assms(3)] by blast
  have fb: "py_float_of_int b = Inr (of_int b)"
    using assms by (intro py_float_of_int_exact) simp
  have "b * n \<le> b * 16" using n assms by (intro mult_left_mono) simp_all
  moreover have "0 \<le> b * n" using n assms by simp
  ultimately have bn: "\<bar>b * n\<bar> < 2 ^ 53" using assms(2) by simp
  have x: "of_int b * f = of_int (b * n) * two_pow (- 2)" by (simp add: f)
  have rd: "round_double (of_int b * f) = of_int b * f"
    unfolding x using bn by (intro round_double_exact) simp_all
  have pos: "0 \<le> of_int b * f"
    using assms n two_pow_pos [of "- 2"] by (simp add: f)
  have "of_int b * f \<le> of_int (b * n)"
    unfolding x by (simp add: two_pow_def power_int_minus) (use n assms in simp)
  also have "\<dots> < 2 ^ 53" using bn by (metis abs_ge_self of_int_less_numeral_power_cancel_iff order.strict_trans1)
  also have "\<dots> \<le> two_pow 1023" by (simp add: two_pow_nat)
  finally have "\<bar>of_int b * f\<bar> < two_pow 1023" using pos by simp
  then have "to_double (of_int b * f) = Finite (of_int b * f)"
    using to_double_finite rd by simp
  then show ?thesis
    using assms pos by (simp add: bucket_target_size_def fb truncate_rat_def)
qed

lemma bucket_target_size_fallback:
  "b \<le> 0 \<Longrightarrow> bucket_target_size b rt =
     (case map_of RESOLUTION_SIZES rt of None \<Rightarrow> Inl TypeError | Some t \<Rightarrow> Inr t)"
  by (simp add: bucket_target_size_def)

lemma resize_playstore_success:
  assumes "resize_playstore env output_folder file_name width height calls = (Inr (), calls')"
  shows "\<exists>new_width new_height.
           get_width_height width height PLAYSTORE_SIZE = Inr (new_width, new_height) \<and>
           calls' = calls @ [MakeDirs (path_join output_folder [PLAYSTORE_FOLDER_PATH]),
                     ImageResize new_width new_height,
                     ImageSave (path_join output_folder
                                  [PLAYSTORE_FOLDER_PATH, normalize_file_name file_name])
                       new_width new_height]"
proof -
  let ?dir = "path_join output_folder [PLAYSTORE_FOLDER_PATH]"
  obtain r calls1 where c: "create_playstore_directory env output_folder calls = (r, calls1)"
    by (cases "create_playstore_directory env output_folder calls")
  then have c1: "calls1 = calls @ [MakeDirs ?dir]"
    by (auto simp: create_playstore_directory_def makedirs_ignoring_OSError_def os_makedirs_def
             split: sum.splits if_splits)
  from assms c have r: "r = Inr ()"
    by (cases r) (simp_all add: resize_playstore_def)
  from assms c r have "resize_and_save env
        (path_join output_folder [PLAYSTORE_FOLDER_PATH, normalize_file_name file_name])
        width height PLAYSTORE_SIZE calls1 = (Inr (), calls')"
    by (simp add: resize_playstore_def)
  from resize_and_save_success [OF this] c1 show ?thesis by auto
qed

subsection \<open>Directories created by a history\<close>

lemma created_dirs_append:
  "created_dirs env before (xs @ ys) =
     created_dirs env before xs @ created_dirs env (before @ xs) ys"
proof (induction xs arbitrary: before)
  case Nil
  show ?case by simp
next
  case (Cons ev xs)
  show ?case by (cases ev) (simp_all add: Cons.IH)
qed

lemma created_dirs_makedirs_split:
  assumes "makedirs_result env (before @ map MakeDirs pre) path = None"
  shows "path \<in> set (created_dirs env before (map MakeDirs (pre @ path # post)))"
  using assms by (simp add: created_dirs_append)

lemma created_dirs_all_fail:
  assumes "\<forall>path \<in> set paths. \<forall>calls. makedirs_result env calls path \<noteq> None"
  shows "created_dirs env before (map MakeDirs paths) = []"
  using assms by (induction paths arbitrary: before) auto

subsection \<open>Paths of the saved files\<close>

lemma slash_not_in_basename: "CHR ''/'' \<notin> set (basename p)"
  by (auto simp: basename_def dest: set_takeWhileD)

lemma set_re_sub_multiplier: "set (re_sub_multiplier s) \<subseteq> set s"
proof (induction s rule: re_sub_multiplier.induct)
  case 1
  show ?case by simp
next
  case (2 c cs)
  show ?case
  proof (cases "match_multiplier (c # cs)")
    case None
    then show ?thesis using 2(1) by (auto simp del: match_multiplier.simps)
  next
    case (Some rest)
    then have "dropWhile is_digit cs = CHR ''x'' # rest"
      using match_multiplier_Some_suffix by blast
    then have "set rest \<subseteq> set (dropWhile is_digit cs)" by auto
    also have "\<dots> \<subseteq> set cs" by (auto dest: set_dropWhileD)
    finally have "set rest \<subseteq> set (c # cs)" by auto
    then show ?thesis using 2(2) [OF Some] Some by (auto simp del: match_multiplier.simps)
  qed
qed

lemma slash_not_in_normalize_file_name:
  "CHR ''/'' \<notin> set s \<Longrightarrow> CHR ''/'' \<notin> set (normalize_file_name s)"
  using set_re_sub_multiplier [of s]
  by (auto simp: normalize_file_name_def replace_hyphens_def)

lemma path_join_folder_and_name:
  assumes "CHR ''/'' \<notin> set name" "folder \<noteq> []" "hd folder \<noteq> CHR ''/''"
  shows "path_join output_folder [folder, name] =
           (if output_folder = [] \<or> last output_folder = CHR ''/'' then output_folder
            else output_folder @ ''/'') @ folder @
           (if last folder = CHR ''/'' then [] else ''/'') @ name"
proof -
  have n: "\<not> (name \<noteq> [] \<and> hd name = CHR ''/'')"
    using assms(1) by (cases name) auto
  show ?thesis
    using assms(2,3) n by (auto simp: path_join_def join_step_def)
qed

lemma playstore_path_not_a_drawable_path:
  assumes "CHR ''/'' \<notin> set name"
  shows "path_join output_folder [PLAYSTORE_FOLDER_PATH, name]
           \<noteq> path_join output_folder [DRAWABLE_FOLDER_PATH resolution_type, name]"
proof -
  have a: "path_join output_folder [PLAYSTORE_FOLDER_PATH, name] =
           (if output_folder = [] \<or> last output_folder = CHR ''/'' then output_folder
            else output_folder @ ''/'') @ ''res/playstore'' @ ''/'' @ name"
    using path_join_folder_and_name [OF assms, of PLAYSTORE_FOLDER_PATH output_folder]
    by (simp add: PLAYSTORE_FOLDER_PATH_def)
  have b: "path_join output_folder [DRAWABLE_FOLDER_PATH resolution_type, name] =
           (if output_folder = [] \<or> last output_folder = CHR ''/'' then output_folder
            else output_folder @ ''/'') @ (''res/drawable-'' @ resolution_type) @
           (if last (''res/drawable-'' @ resolution_type) = CHR ''/'' then [] else ''/'') @ name"
    using path_join_folder_and_name [OF assms, of "DRAWABLE_FOLDER_PATH resolution_type" output_folder]
    by (simp add: DRAWABLE_FOLDER_PATH_def)
  show ?thesis unfolding a b by simp
qed

section \<open>Runs on concrete inputs\<close>

subsection \<open>Scaled sides, evaluated\<close>

lemma scale_side_100_150_200: "scale_side 100 150 200 = Inr 75"
proof -
  have q: "round_double (of_int 150 / of_int 200) = 3 / 4"
    by code_simp
  have p: "round_double (of_int 100 * (3 / 4)) = 75"
    by code_simp
  have t: "truncate_rat (75) = 75"
    by code_simp
  show ?thesis
    using scale_side_eval [OF _ _ _ _ _ _ q _ p] by (simp add: t)
qed

lemma scale_side_100_200_200: "scale_side 100 200 200 = Inr 100"
proof -
  have q: "round_double (of_int 200 / of_int 200) = 1"
    by code_simp
  have p: "round_double (of_int 100 * (1)) = 100"
    by code_simp
  have t: "truncate_rat (100) = 100"
    by code_simp
  show ?thesis
    using scale_side_eval [OF _ _ _ _ _ _ q _ p] by (simp add: t)
qed

lemma scale_side_100_300_200: "scale_side 100 300 200 = Inr 150"
proof -
  have q: "round_double (of_int 300 / of_int 200) = 3 / 2"
    by code_simp
  have p: "round_double (of_int 100 * (3 / 2)) = 150"
    by code_simp
  have t: "truncate_rat (150) = 150"
    by code_simp
  show ?thesis
    using scale_side_eval [OF _ _ _ _ _ _ q _ p] by (simp add: t)
qed

lemma scale_side_100_400_200: "scale_side 100 400 200 = Inr 200"
proof -
  have q: "round_double (of_int 400 / of_int 200) = 2"
    by code_simp
  have p: "round_double (of_int 100 * (2)) = 200"
    by code_simp
  have t: "truncate_rat (200) = 200"
    by code_simp
  show ?thesis
    using scale_side_eval [OF _ _ _ _ _ _ q _ p] by (simp add: t)
qed

lemma scale_side_100_600_200: "scale_side 100 600 200 = Inr 300"
proof -
  have q: "round_double (of_int 600 / of_int 200) = 3"
    by code_simp
  have p: "round_double (of_int 100 * (3)) = 300"
    by code_simp
  have t: "truncate_rat (300) = 300"
    by code_simp
  show ?thesis
    using scale_side_eval [OF _ _ _ _ _ _ q _ p] by (simp add: t)
qed

lemma scale_side_100_800_200: "scale_side 100 800 200 = Inr 400"
proof -
  have q: "round_double (of_int 800 / of_int 200) = 4"
    by code_simp
  have p: "round_double (of_int 100 * (4)) = 400"
    by code_simp
  have t: "truncate_rat (400) = 400"
    by code_simp
  show ?thesis
    using scale_side_eval [OF _ _ _ _ _ _ q _ p] by (simp add: t)
qed

lemma scale_side_100_512_200: "scale_side 100 512 200 = Inr 256"
proof -
  have q: "round_double (of_int 512 / of_int 200) = 5764607523034235 / 2251799813685248"
    by code_simp
  have p: "round_double (of_int 100 * (5764607523034235 / 2251799813685248)) = 256"
    by code_simp
  have t: "truncate_rat (256) = 256"
    by code_simp
  show ?thesis
    using scale_side_eval [OF _ _ _ _ _ _ q _ p] by (simp add: t)
qed

lemma scale_side_196_512_196: "scale_side 196 512 196 = Inr 511"
proof -
  have q: "round_double (of_int 512 / of_int 196) = 5882252574524729 / 2251799813685248"
    by code_simp
  have p: "round_double (of_int 196 * (5882252574524729 / 2251799813685248)) = 9007199254740991 / 17592186044416"
    by code_simp
  have t: "truncate_rat (9007199254740991 / 17592186044416) = 511"
    by code_simp
  show ?thesis
    using scale_side_eval [OF _ _ _ _ _ _ q _ p] by (simp add: t)
qed

lemma scale_side_98_512_196: "scale_side 98 512 196 = Inr 255"
proof -
  have q: "round_double (of_int 512 / of_int 196) = 5882252574524729 / 2251799813685248"
    by code_simp
  have p: "round_double (of_int 98 * (5882252574524729 / 2251799813685248)) = 9007199254740991 / 35184372088832"
    by code_simp
  have t: "truncate_rat (9007199254740991 / 35184372088832) = 255"
    by code_simp
  show ?thesis
    using scale_side_eval [OF _ _ _ _ _ _ q _ p] by (simp add: t)
qed

lemma scale_side_157_117_157: "scale_side 157 117 157 = Inr 116"
proof -
  have q: "round_double (of_int 117 / of_int 157) = 6712371419138191 / 9007199254740992"
    by code_simp
  have p: "round_double (of_int 157 * (6712371419138191 / 9007199254740992)) = 8233143068786687 / 70368744177664"
    by code_simp
  have t: "truncate_rat (8233143068786687 / 70368744177664) = 116"
    by code_simp
  show ?thesis
    using scale_side_eval [OF _ _ _ _ _ _ q _ p] by (simp add: t)
qed

subsection \<open>A run in the sample environment\<close>

lemma sample_env_only_OSError:
  "\<forall>calls path e. makedirs_result sample_env calls path = Some e \<longrightarrow> is_OSError e"
  by (simp add: sample_env_def)

lemma sample_env_simps:
  "open_result sample_env calls ''in/icon@2x-test.png'' = Inr (100, 200)"
  "open_result sample_env calls ''in/missing.png'' = Inl IOError"
  "resize_result sample_env calls w h = None"
  "save_result sample_env calls path w h = None"
  "dict_keys sample_env RESOLUTION_SIZES
     = [''xhdpi'', ''hdpi'', ''xxxhdpi'', ''mdpi'', ''ldpi'', ''xxhdpi'']"
  by (simp_all add: sample_env_def dict_keys_def RESOLUTION_SIZES_def)

lemma sample_target_sizes:
  "bucket_target_size 200 ''ldpi'' = Inr 150"
  "bucket_target_size 200 ''mdpi'' = Inr 200"
  "bucket_target_size 200 ''hdpi'' = Inr 300"
  "bucket_target_size 200 ''xhdpi'' = Inr 400"
  "bucket_target_size 200 ''xxhdpi'' = Inr 600"
  "bucket_target_size 200 ''xxxhdpi'' = Inr 800"
  using bucket_target_size_exact [of 200 "''ldpi''" "3 / 4"]
    bucket_target_size_exact [of 200 "''mdpi''" 1]
    bucket_target_size_exact [of 200 "''hdpi''" "3 / 2"]
    bucket_target_size_exact [of 200 "''xhdpi''" 2]
    bucket_target_size_exact [of 200 "''xxhdpi''" 3]
    bucket_target_size_exact [of 200 "''xxxhdpi''" 4]
  by (simp_all add: RELATIVE_SIZES_def)

lemma sample_sizes:
  "get_width_height 100 200 150 = Inr (75, 150)"
  "get_width_height 100 200 200 = Inr (100, 200)"
  "get_width_height 100 200 300 = Inr (150, 300)"
  "get_width_height 100 200 400 = Inr (200, 400)"
  "get_width_height 100 200 600 = Inr (300, 600)"
  "get_width_height 100 200 800 = Inr (400, 800)"
  "get_width_height 100 200 512 = Inr (256, 512)"
  by (simp_all add: get_width_height_def scale_side_100_150_200 scale_side_100_200_200
        scale_side_100_300_200 scale_side_100_400_200 scale_side_100_600_200
        scale_side_100_800_200 scale_side_100_512_200)

lemma sample_paths:
  "basename ''in/icon@2x-test.png'' = ''icon@2x-test.png''"
  "basename ''in/missing.png'' = ''missing.png''"
  "path_join ''out'' [DRAWABLE_FOLDER_PATH ''ldpi''] = ''out/res/drawable-ldpi''"
  "path_join ''out'' [DRAWABLE_FOLDER_PATH ''ldpi'', ''icon_test.png'']
     = ''out/res/drawable-ldpi/icon_test.png''"
  "path_join ''out'' [DRAWABLE_FOLDER_PATH ''mdpi''] = ''out/res/drawable-mdpi''"
  "path_join ''out'' [DRAWABLE_FOLDER_PATH ''mdpi'', ''icon_test.png'']
     = ''out/res/drawable-mdpi/icon_test.png''"
  "path_join ''out'' [DRAWABLE_FOLDER_PATH ''hdpi''] = ''out/res/drawable-hdpi''"
  "path_join ''out'' [DRAWABLE_FOLDER_PATH ''hdpi'', ''icon_test.png'']
     = ''out/res/drawable-hdpi/icon_test.png''"
  "path_join ''out'' [DRAWABLE_FOLDER_PATH ''xhdpi''] = ''out/res/drawable-xhdpi''"
  "path_join ''out'' [DRAWABLE_FOLDER_PATH ''xhdpi'', ''icon_test.png'']
     = ''out/res/drawable-xhdpi/icon_test.png''"
  "path_join ''out'' [DRAWABLE_FOLDER_PATH ''xxhdpi''] = ''out/res/drawable-xxhdpi''"
  "path_join ''out'' [DRAWABLE_FOLDER_PATH ''xxhdpi'', ''icon_test.png'']
     = ''out/res/drawable-xxhdpi/icon_test.png''"
  "path_join ''out'' [DRAWABLE_FOLDER_PATH ''xxxhdpi''] = ''out/res/drawable-xxxhdpi''"
  "path_join ''out'' [DRAWABLE_FOLDER_PATH ''xxxhdpi'', ''icon_test.png'']
     = ''out/res/drawable-xxxhdpi/icon_test.png''"
  "path_join ''out'' [PLAYSTORE_FOLDER_PATH] = ''out/res/playstore''"
  "path_join ''out'' [PLAYSTORE_FOLDER_PATH, ''icon_test.png''] = ''out/res/playstore/icon_test.png''"
  by (simp_all add: basename_def path_join_def join_step_def DRAWABLE_FOLDER_PATH_def
        PLAYSTORE_FOLDER_PATH_def)

lemma sample_create_directories:
  "create_directories sample_env ''out'' calls =
     (Inr (), calls @
        [MakeDirs ''out/res/drawable-ldpi'', MakeDirs ''out/res/drawable-mdpi'',
         MakeDirs ''out/res/drawable-hdpi'', MakeDirs ''out/res/drawable-xhdpi'',
         MakeDirs ''out/res/drawable-xxhdpi'', MakeDirs ''out/res/drawable-xxxhdpi''])"
proof -
  have "create_directories sample_env ''out'' calls =
     (Inr (), calls @ map (\<lambda>rt. MakeDirs (path_join ''out'' [DRAWABLE_FOLDER_PATH rt]))
        RESOLUTION_TYPES)"
    unfolding create_directories_def
    by (rule create_directories_loop_only [OF sample_env_only_OSError])
  then show ?thesis by (simp add: RESOLUTION_TYPES_def sample_paths)
qed

lemma sample_run:
  "resize sample_env ''out'' ''in/icon@2x-test.png'' d False [] =
     (Inr (),
      [MakeDirs ''out/res/drawable-ldpi'', MakeDirs ''out/res/drawable-mdpi'',
       MakeDirs ''out/res/drawable-hdpi'', MakeDirs ''out/res/drawable-xhdpi'',
       MakeDirs ''out/res/drawable-xxhdpi'', MakeDirs ''out/res/drawable-xxxhdpi'',
       ImageOpen ''in/icon@2x-test.png'',
       ImageResize 200 400, ImageSave ''out/res/drawable-xhdpi/icon_test.png'' 200 400,
       ImageResize 150 300, ImageSave ''out/res/drawable-hdpi/icon_test.png'' 150 300,
       ImageResize 400 800, ImageSave ''out/res/drawable-xxxhdpi/icon_test.png'' 400 800,
       ImageResize 100 200, ImageSave ''out/res/drawable-mdpi/icon_test.png'' 100 200,
       ImageResize 75 150, ImageSave ''out/res/drawable-ldpi/icon_test.png'' 75 150,
       ImageResize 300 600, ImageSave ''out/res/drawable-xxhdpi/icon_test.png'' 300 600])"
  by (simp add: resize_def sample_create_directories image_open_def
        sample_env_simps sample_paths normalize_example sample_target_sizes
        resize_and_save_def sample_sizes image_resize_def image_save_def)

lemma sample_run_playstore:
  "resize sample_env ''out'' ''in/icon@2x-test.png'' d True [] =
     (Inr (),
      [MakeDirs ''out/res/drawable-ldpi'', MakeDirs ''out/res/drawable-mdpi'',
       MakeDirs ''out/res/drawable-hdpi'', MakeDirs ''out/res/drawable-xhdpi'',
       MakeDirs ''out/res/drawable-xxhdpi'', MakeDirs ''out/res/drawable-xxxhdpi'',
       ImageOpen ''in/icon@2x-test.png'',
       ImageResize 200 400, ImageSave ''out/res/drawable-xhdpi/icon_test.png'' 200 400,
       ImageResize 150 300, ImageSave ''out/res/drawable-hdpi/icon_test.png'' 150 300,
       ImageResize 400 800, ImageSave ''out/res/drawable-xxxhdpi/icon_test.png'' 400 800,
       ImageResize 100 200, ImageSave ''out/res/drawable-mdpi/icon_test.png'' 100 200,
       ImageResize 75 150, ImageSave ''out/res/drawable-ldpi/icon_test.png'' 75 150,
       ImageResize 300 600, ImageSave ''out/res/drawable-xxhdpi/icon_test.png'' 300 600,
       MakeDirs ''out/res/playstore'', ImageResize 256 512,
       ImageSave ''out/res/playstore/icon_test.png'' 256 512])"
  by (simp add: resize_def sample_create_directories image_open_def
        sample_env_simps sample_paths normalize_example sample_target_sizes
        resize_and_save_def sample_sizes image_resize_def image_save_def
        resize_playstore_def create_playstore_directory_def PLAYSTORE_SIZE_def
        makedirs_ignoring_OSError_only [OF sample_env_only_OSError])

subsection \<open>Creating directories in the sample and the read-only world\<close>

lemma read_only_env_only_OSError:
  "\<forall>calls path e. makedirs_result read_only_env calls path = Some e \<longrightarrow> is_OSError e"
  by (simp add: read_only_env_def)

lemma sample_env_fresh_makedirs:
  "\<forall>pre rt post.
     RESOLUTION_TYPES = pre @ rt # post \<longrightarrow>
     makedirs_result sample_env
       ([] @ map (\<lambda>rt. MakeDirs (path_join ''out'' [DRAWABLE_FOLDER_PATH rt])) pre)
       (path_join ''out'' [DRAWABLE_FOLDER_PATH rt]) = None"
  by (auto simp: RESOLUTION_TYPES_def Cons_eq_append_conv sample_env_def sample_paths)

section \<open>The claims\<close>

text \<open>
  Claim C1: for positive sizes, \<open>get_width_height\<close> maps the longer side to the target
  size, and the shorter side is to be the shorter source side times the target size over
  the longer side, truncated toward zero. The code does not compute that quotient: it
  rounds \<open>target_size / longer\<close> to a double, rounds the product with the shorter side
  again and truncates the result. For an image of 196 by 98 pixels and the storefront
  size 512 the exact value is 256, and the code returns 255 (\<open>scale_side_value\<close> and
  \<open>get_width_height_bounded\<close> give what does hold: the result is the exact truncation
  or one below it, and never above the target size).
\<close>

theorem get_width_height_truncates_float_product:
  "get_width_height 196 98 PLAYSTORE_SIZE = Inr (512, 255) \<and>
   truncate_rat (of_int 98 * of_int PLAYSTORE_SIZE / of_int 196) = 256"
  by (simp add: get_width_height_def PLAYSTORE_SIZE_def scale_side_98_512_196 truncate_rat_def)

text \<open>
  Claim C2: \<open>resize\<close> does not depend on the \<open>desired_size_mdpi\<close> its caller gives:
  two calls that differ only in that argument return the same result and make the same
  calls to the world outside, since the parameter is assigned the longer side of the
  image before it is read.
\<close>

theorem resize_ignores_desired_size_mdpi:
  "resize env output_folder file_path size1 with_playstore calls =
   resize env output_folder file_path size2 with_playstore calls"
  by (simp add: resize_def)

text \<open>
  Claim C3: in a run of \<open>resize\<close> that returns, on an image whose longer side is
  positive and below \<open>2 ^ 31\<close> (the imaging library keeps the sides in C integers),
  each of the six buckets has a target size that is the floor of the longer side times
  the relative factor of the bucket, and the file saved for the bucket has the size
  \<open>get_width_height\<close> gives for that target. The canonical size of
  \<open>RESOLUTION_SIZES\<close> is the target only when the baseline is not positive. For a
  source of 100 by 200 the \<open>xxxhdpi\<close> target is 800 and the variant is 400 by 800.
\<close>

theorem resize_target_sizes:
  assumes run: "resize env output_folder file_path desired with_playstore calls = (Inr (), calls')"
    and opened: "open_result env (snd (create_directories env output_folder calls)) file_path
                   = Inr (width, height)"
    and dims: "0 < max width height" "max width height < 2 ^ 31"
    and rt: "resolution_type \<in> set RESOLUTION_TYPES"
  shows "(\<exists>factor new_width new_height.
            map_of RELATIVE_SIZES resolution_type = Some factor \<and>
            bucket_target_size (max width height) resolution_type
              = Inr \<lfloor>of_int (max width height) * factor\<rfloor> \<and>
            get_width_height width height \<lfloor>of_int (max width height) * factor\<rfloor>
              = Inr (new_width, new_height) \<and>
            ImageSave (path_join output_folder
                         [DRAWABLE_FOLDER_PATH resolution_type,
                          normalize_file_name (basename file_path)])
              new_width new_height \<in> set calls') \<and>
         (\<forall>b rt. b \<le> 0 \<longrightarrow>
            bucket_target_size b rt =
              (case map_of RESOLUTION_SIZES rt of None \<Rightarrow> Inl TypeError | Some t \<Rightarrow> Inr t)) \<and>
         map_of RELATIVE_SIZES ''xxxhdpi'' = Some 4 \<and>
         get_width_height 100 200 \<lfloor>of_int (max 100 200) * 4\<rfloor> = Inr (400, 800)"
proof -
  let ?path = "path_join output_folder
                 [DRAWABLE_FOLDER_PATH resolution_type, normalize_file_name (basename file_path)]"
  let ?b = "max width height"
  from resize_success [OF run] obtain calls0 w h calls2 where
    c0: "create_directories env output_folder calls = (Inr (), calls0)"
    and o: "open_result env calls0 file_path = Inr (w, h)"
    and l: "resize_loop env output_folder (basename file_path) w h (max w h)
              (dict_keys env RESOLUTION_SIZES) (calls0 @ [ImageOpen file_path]) = (Inr (), calls2)"
    and p: "if with_playstore
            then resize_playstore env output_folder (basename file_path) w h calls2 = (Inr (), calls')
            else calls' = calls2"
    by blast
  from c0 o opened have wh: "w = width" "h = height" by simp_all
  have "set (dict_keys env RESOLUTION_SIZES) = set RESOLUTION_TYPES"
    by (rule set_dict_keys_RESOLUTION_SIZES)
  with rt have "resolution_type \<in> set (dict_keys env RESOLUTION_SIZES)" by simp
  with resize_loop_success [OF l] obtain evs target_size new_width new_height where
    evs: "calls2 = (calls0 @ [ImageOpen file_path]) @ evs"
    and t: "bucket_target_size ?b resolution_type = Inr target_size"
    and g: "get_width_height width height target_size = Inr (new_width, new_height)"
    and s: "ImageSave ?path new_width new_height \<in> set evs"
    unfolding wh by blast
  have b: "0 < ?b" "?b < 2 ^ 31" using dims by simp_all
  obtain factor where f: "map_of RELATIVE_SIZES resolution_type = Some factor"
    using t b by (cases "map_of RELATIVE_SIZES resolution_type") (simp_all add: bucket_target_size_def)
  have t': "bucket_target_size ?b resolution_type = Inr \<lfloor>of_int ?b * factor\<rfloor>"
    using b f by (rule bucket_target_size_exact)
  with t have ts: "target_size = \<lfloor>of_int ?b * factor\<rfloor>" by simp
  have "set calls2 \<subseteq> set calls'"
  proof (cases with_playstore)
    case True
    with p resize_playstore_success show ?thesis by fastforce
  next
    case False
    with p show ?thesis by simp
  qed
  with s evs have "ImageSave ?path new_width new_height \<in> set calls'" by auto
  with f t' g ts have main: "\<exists>factor new_width new_height.
            map_of RELATIVE_SIZES resolution_type = Some factor \<and>
            bucket_target_size ?b resolution_type = Inr \<lfloor>of_int ?b * factor\<rfloor> \<and>
            get_width_height width height \<lfloor>of_int ?b * factor\<rfloor> = Inr (new_width, new_height) \<and>
            ImageSave ?path new_width new_height \<in> set calls'"
    by blast
  have ex: "get_width_height 100 200 \<lfloor>of_int (max 100 200) * 4\<rfloor> = Inr (400, 800)"
    by (simp add: sample_sizes)
  have m: "map_of RELATIVE_SIZES ''xxxhdpi'' = Some 4" by (simp add: RELATIVE_SIZES_def)
  from main ex m show ?thesis by (simp add: bucket_target_size_fallback)
qed

text \<open>
  The theorem at the run of the sample environment, for the \<open>xxxhdpi\<close> bucket, and its
  fallback at the baseline 0.
\<close>

theorem resize_target_sizes_witness:
  "(\<exists>factor new_width new_height.
      map_of RELATIVE_SIZES ''xxxhdpi'' = Some factor \<and>
      bucket_target_size (max 100 200) ''xxxhdpi'' = Inr \<lfloor>of_int (max 100 200) * factor\<rfloor> \<and>
      get_width_height 100 200 \<lfloor>of_int (max 100 200) * factor\<rfloor> = Inr (new_width, new_height) \<and>
      ImageSave (path_join ''out''
                   [DRAWABLE_FOLDER_PATH ''xxxhdpi'',
                    normalize_file_name (basename ''in/icon@2x-test.png'')])
        new_width new_height
        \<in> set (snd (resize sample_env ''out'' ''in/icon@2x-test.png'' (Some 48) False []))) \<and>
   bucket_target_size 0 ''xxxhdpi'' = Inr 192"
proof -
  have run: "resize sample_env ''out'' ''in/icon@2x-test.png'' (Some 48) False []
               = (Inr (), snd (resize sample_env ''out'' ''in/icon@2x-test.png'' (Some 48) False []))"
    by (simp add: sample_run)
  have opened: "open_result sample_env (snd (create_directories sample_env ''out'' []))
                  ''in/icon@2x-test.png'' = Inr (100, 200)"
    by (simp add: sample_env_simps)
  have rt: "''xxxhdpi'' \<in> set RESOLUTION_TYPES"
    by (simp add: RESOLUTION_TYPES_def)
  have dims: "0 < max (100::int) 200" "max (100::int) 200 < 2 ^ 31"
    by simp_all
  note inst = resize_target_sizes [OF run opened dims rt]
  from inst have fallback: "\<forall>b rt. b \<le> 0 \<longrightarrow> bucket_target_size b rt =
      (case map_of RESOLUTION_SIZES rt of None \<Rightarrow> Inl TypeError | Some t \<Rightarrow> Inr t)"
    by blast
  then have "bucket_target_size 0 ''xxxhdpi'' =
      (case map_of RESOLUTION_SIZES ''xxxhdpi'' of None \<Rightarrow> Inl TypeError | Some t \<Rightarrow> Inr t)"
    by simp
  then have "bucket_target_size 0 ''xxxhdpi'' = Inr 192"
    by (simp add: RESOLUTION_SIZES_def)
  with inst show ?thesis by blast
qed

text \<open>
  Claim C4: for a square source \<open>get_width_height\<close> takes the branch of the height and
  is to return the target size twice. The new width is the truncated float product
  \<open>width * (target_size / height)\<close>, which can fall just below the target size: for a
  source of 196 by 196 and the storefront size the code returns 511 by 512.
\<close>

theorem get_width_height_square_gives_511_by_512:
  "get_width_height 196 196 PLAYSTORE_SIZE = Inr (511, 512) \<and>
   get_width_height 196 196 PLAYSTORE_SIZE \<noteq> Inr (PLAYSTORE_SIZE, PLAYSTORE_SIZE)"
  by (simp add: get_width_height_def PLAYSTORE_SIZE_def scale_side_196_512_196)

text \<open>
  Claim C5, as amended: \<open>normalize_file_name\<close> removes every multiplier
  \<open>@<digits>x\<close> the scan from the left meets, at any position and however many there
  are, and replaces every hyphen by an underscore. A multiplier between two parts of a
  name is dropped and both parts are normalized on their own; a name in which no position
  starts a multiplier only has its hyphens replaced; the result has no hyphen; and
  \<open>icon@2x-test.png\<close> becomes \<open>icon_test.png\<close>.
\<close>

theorem normalize_file_name_removes_every_multiplier:
  "(ds \<noteq> [] \<and> (\<forall>d \<in> set ds. is_digit d) \<longrightarrow>
      normalize_file_name (pre @ ''@'' @ ds @ ''x'' @ post)
        = normalize_file_name pre @ normalize_file_name post) \<and>
   ((\<forall>i < length s. match_multiplier (drop i s) = None) \<longrightarrow>
      normalize_file_name s = replace_hyphens s) \<and>
   CHR ''-'' \<notin> set (normalize_file_name s) \<and>
   length (replace_hyphens s) = length s \<and>
   (\<forall>i < length s. replace_hyphens s ! i = (if s ! i = CHR ''-'' then CHR ''_'' else s ! i)) \<and>
   normalize_file_name ''icon@2x-test.png'' = ''icon_test.png''"
proof -
  have a: "normalize_file_name (pre @ ''@'' @ ds @ ''x'' @ post)
             = normalize_file_name pre @ normalize_file_name post"
    if "ds \<noteq> []" "\<forall>d \<in> set ds. is_digit d"
    using re_sub_multiplier_append_match [OF that, of pre post]
    by (simp add: normalize_file_name_def replace_hyphens_append)
  have b: "normalize_file_name s = replace_hyphens s"
    if "\<forall>i < length s. match_multiplier (drop i s) = None"
    using re_sub_multiplier_no_match [OF that] by (simp add: normalize_file_name_def)
  have c: "CHR ''-'' \<notin> set (normalize_file_name s)"
    unfolding normalize_file_name_def by (rule hyphen_not_in_replace_hyphens)
  have d: "length (replace_hyphens s) = length s"
    "\<forall>i < length s. replace_hyphens s ! i = (if s ! i = CHR ''-'' then CHR ''_'' else s ! i)"
    by (simp_all add: replace_hyphens_def)
  from a b c d normalize_example show ?thesis by blast
qed

text \<open>
  The theorem on \<open>a@2x@3x-b.png\<close>: both multipliers go, the rest has none, and its
  hyphen is replaced.
\<close>

theorem normalize_file_name_removes_every_multiplier_witness:
  "normalize_file_name (''a'' @ ''@'' @ ''2'' @ ''x'' @ ''@3x-b.png'')
     = normalize_file_name ''a'' @ normalize_file_name ''@3x-b.png'' \<and>
   normalize_file_name ''@3x-b.png'' = normalize_file_name [] @ normalize_file_name ''-b.png'' \<and>
   normalize_file_name ''-b.png'' = replace_hyphens ''-b.png'' \<and>
   replace_hyphens ''-b.png'' ! 0 = CHR ''_''"
proof -
  have two: "''2'' \<noteq> [] \<and> (\<forall>d \<in> set ''2''. is_digit d)"
    and three: "''3'' \<noteq> [] \<and> (\<forall>d \<in> set ''3''. is_digit d)"
    by (simp_all add: is_digit_def)
  have none: "\<forall>i < length ''-b.png''. match_multiplier (drop i ''-b.png'') = None"
    by (simp add: All_less_Suc eval_nat_numeral)
  have zero: "0 < length ''-b.png''" by simp
  show ?thesis
    using normalize_file_name_removes_every_multiplier [of "''2''" "''a''" "''@3x-b.png''" "''-b.png''"]
      normalize_file_name_removes_every_multiplier [of "''3''" "[]" "''-b.png''" "''-b.png''"]
      two three none zero
    by simp
qed

text \<open>
  Against the claim as it was stated, that exactly one multiplier is removed: a name with
  two multipliers loses both, where removing one, either of them, leaves the other.
\<close>

theorem normalize_file_name_removes_two_multipliers:
  "normalize_file_name ''a@2x@3x.png'' = ''a.png'' \<and>
   spec_normalize_file_name ''a@2x@3x.png'' = ''a@3x.png'' \<and>
   normalize_file_name ''a@2x@3x.png'' \<noteq> spec_normalize_file_name ''a@2x@3x.png'' \<and>
   normalize_file_name ''a@2x@3x.png'' \<noteq> ''a@2x.png''"
  by (simp add: normalize_file_name_def spec_normalize_file_name_def replace_hyphens_def
        is_digit_def)

text \<open>
  Claim C6, as amended: \<open>normalize_file_name\<close> is idempotent on every name in which no
  \<open>@\<close> is followed, after zero or more digits, by another \<open>@\<close>; in particular on
  every name with at most one \<open>@\<close>.
\<close>

theorem normalize_file_name_idempotent_without_at_digits_at:
  "(\<not> at_digits_at s \<longrightarrow>
      normalize_file_name (normalize_file_name s) = normalize_file_name s) \<and>
   (length (filter (\<lambda>c. c = CHR ''@'') s) \<le> 1 \<longrightarrow>
      normalize_file_name (normalize_file_name s) = normalize_file_name s)"
proof -
  have a: "normalize_file_name (normalize_file_name s) = normalize_file_name s"
    if "\<not> at_digits_at s"
    using re_sub_multiplier_idem [OF that]
    by (simp add: normalize_file_name_def re_sub_multiplier_replace_hyphens replace_hyphens_idem)
  have "\<not> at_digits_at s" if "length (filter (\<lambda>c. c = CHR ''@'') s) \<le> 1"
    using that at_digits_at_two_ats [of s] by auto
  with a show ?thesis by blast
qed

text \<open>The theorem on a name with two separate \<open>@\<close> and on a name with one.\<close>

theorem normalize_file_name_idempotent_witness:
  "\<not> at_digits_at ''icon@2x-test@1.png'' \<and>
   normalize_file_name (normalize_file_name ''icon@2x-test@1.png'')
     = normalize_file_name ''icon@2x-test@1.png'' \<and>
   length (filter (\<lambda>c. c = CHR ''@'') ''icon@2x-test.png'') \<le> 1 \<and>
   normalize_file_name (normalize_file_name ''icon@2x-test.png'')
     = normalize_file_name ''icon@2x-test.png''"
proof -
  have a: "\<not> at_digits_at ''icon@2x-test@1.png''" by (simp add: is_digit_def)
  have b: "length (filter (\<lambda>c. c = CHR ''@'') ''icon@2x-test.png'') \<le> 1" by simp
  show ?thesis
    using normalize_file_name_idempotent_without_at_digits_at [of "''icon@2x-test@1.png''"]
      normalize_file_name_idempotent_without_at_digits_at [of "''icon@2x-test.png''"] a b
    by blast
qed

text \<open>
  Against idempotence on every name: removing the multiplier inside \<open>@@2x2x\<close> leaves
  \<open>@2x\<close>, a multiplier that a second pass removes.
\<close>

theorem normalize_file_name_not_idempotent:
  "normalize_file_name ''@@2x2x'' = ''@2x'' \<and>
   normalize_file_name (normalize_file_name ''@@2x2x'') = [] \<and>
   normalize_file_name (normalize_file_name ''@@2x2x'') \<noteq> normalize_file_name ''@@2x2x''"
  by (simp add: normalize_file_name_def replace_hyphens_def is_digit_def)

text \<open>
  Claim C7: a run of \<open>resize\<close> with the storefront flag that returns makes the calls of
  the run without the flag and then three more: the storefront directory is created, the
  source image is resized to what \<open>get_width_height\<close> gives for its own width and
  height and the size 512, and one file is saved, at the storefront path, which is the
  path of no drawable. For an image whose sides are positive and below \<open>2 ^ 31\<close> the
  longer side of that file is 512.
\<close>

theorem resize_playstore_adds_one_file:
  assumes "resize env output_folder file_path desired True calls = (Inr (), calls')"
  shows "\<exists>width height new_width new_height calls2.
           open_result env (snd (create_directories env output_folder calls)) file_path
             = Inr (width, height) \<and>
           resize env output_folder file_path desired False calls = (Inr (), calls2) \<and>
           get_width_height width height 512 = Inr (new_width, new_height) \<and>
           calls' = calls2 @
             [MakeDirs (path_join output_folder [PLAYSTORE_FOLDER_PATH]),
              ImageResize new_width new_height,
              ImageSave (path_join output_folder
                           [PLAYSTORE_FOLDER_PATH, normalize_file_name (basename file_path)])
                new_width new_height] \<and>
           (\<forall>rt. path_join output_folder
                    [PLAYSTORE_FOLDER_PATH, normalize_file_name (basename file_path)]
                  \<noteq> path_join output_folder
                      [DRAWABLE_FOLDER_PATH rt, normalize_file_name (basename file_path)]) \<and>
           (0 < width \<and> 0 < height \<and> width < 2 ^ 31 \<and> height < 2 ^ 31 \<longrightarrow>
              max new_width new_height = 512)"
proof -
  from resize_success [OF assms] obtain calls0 width height calls2 where
    c0: "create_directories env output_folder calls = (Inr (), calls0)"
    and o: "open_result env calls0 file_path = Inr (width, height)"
    and l: "resize_loop env output_folder (basename file_path) width height (max width height)
              (dict_keys env RESOLUTION_SIZES) (calls0 @ [ImageOpen file_path]) = (Inr (), calls2)"
    and p: "resize_playstore env output_folder (basename file_path) width height calls2
              = (Inr (), calls')"
    by auto
  have m: "(if width > height then width else height) = max width height" by (simp add: max_def)
  have f: "resize env output_folder file_path desired False calls = (Inr (), calls2)"
    using c0 o l by (simp add: resize_def image_open_def m)
  from resize_playstore_success [OF p] obtain new_width new_height where
    g: "get_width_height width height 512 = Inr (new_width, new_height)"
    and c: "calls' = calls2 @
             [MakeDirs (path_join output_folder [PLAYSTORE_FOLDER_PATH]),
              ImageResize new_width new_height,
              ImageSave (path_join output_folder
                           [PLAYSTORE_FOLDER_PATH, normalize_file_name (basename file_path)])
                new_width new_height]"
    by (auto simp: PLAYSTORE_SIZE_def)
  have n: "\<forall>rt. path_join output_folder
                    [PLAYSTORE_FOLDER_PATH, normalize_file_name (basename file_path)]
                  \<noteq> path_join output_folder
                      [DRAWABLE_FOLDER_PATH rt, normalize_file_name (basename file_path)]"
    using playstore_path_not_a_drawable_path
      [OF slash_not_in_normalize_file_name [OF slash_not_in_basename]]
    by blast
  have "max new_width new_height = 512"
    if "0 < width \<and> 0 < height \<and> width < 2 ^ 31 \<and> height < 2 ^ 31"
  proof -
    have "max width height < 2 ^ 31" using that by (simp add: max_def)
    then have "max width height * 512 < 2 ^ 50" by simp
    from get_width_height_bounded [OF _ _ _ this] that g show ?thesis by auto
  qed
  with c0 o f g c n show ?thesis by auto
qed

text \<open>
  The theorem at the run of the sample environment: the storefront file is 256 by 512.
\<close>

theorem resize_playstore_adds_one_file_witness:
  "resize sample_env ''out'' ''in/icon@2x-test.png'' None True []
     = (Inr (), snd (resize sample_env ''out'' ''in/icon@2x-test.png'' None False []) @
          [MakeDirs ''out/res/playstore'', ImageResize 256 512,
           ImageSave ''out/res/playstore/icon_test.png'' 256 512]) \<and>
   (\<exists>new_width new_height.
      get_width_height 100 200 512 = Inr (new_width, new_height) \<and>
      0 < (100::int) \<and> 0 < (200::int) \<and> (100::int) < 2 ^ 31 \<and> (200::int) < 2 ^ 31 \<and>
      max new_width new_height = 512)"
proof -
  have run: "resize sample_env ''out'' ''in/icon@2x-test.png'' None True []
     = (Inr (), snd (resize sample_env ''out'' ''in/icon@2x-test.png'' None False []) @
          [MakeDirs ''out/res/playstore'', ImageResize 256 512,
           ImageSave ''out/res/playstore/icon_test.png'' 256 512])"
    by (simp add: sample_run sample_run_playstore)
  from resize_playstore_adds_one_file [OF run]
  obtain width height new_width new_height where
    o: "open_result sample_env (snd (create_directories sample_env ''out'' []))
          ''in/icon@2x-test.png'' = Inr (width, height)"
    and g: "get_width_height width height 512 = Inr (new_width, new_height)"
    and m: "0 < width \<and> 0 < height \<and> width < 2 ^ 31 \<and> height < 2 ^ 31 \<longrightarrow>
              max new_width new_height = 512"
    by blast
  from o have "width = 100" "height = 200" by (simp_all add: sample_env_simps)
  with g m run show ?thesis by simp
qed

text \<open>
  Claim C8: where \<open>os.makedirs\<close> raises nothing but OSError, whatever its errno,
  \<open>create_directories\<close> and \<open>create_playstore_directory\<close> return normally from every
  state of the world, having made their calls; so \<open>create_directories\<close> also returns
  normally in the state a first run of \<open>resize\<close> has left.
\<close>

theorem create_directories_never_raise:
  assumes "\<forall>calls path e. makedirs_result env calls path = Some e \<longrightarrow> is_OSError e"
  shows "create_directories env output_folder calls =
           (Inr (), calls @ map (\<lambda>rt. MakeDirs (path_join output_folder [DRAWABLE_FOLDER_PATH rt]))
                             RESOLUTION_TYPES) \<and>
         create_playstore_directory env output_folder calls =
           (Inr (), calls @ [MakeDirs (path_join output_folder [PLAYSTORE_FOLDER_PATH])]) \<and>
         fst (create_directories env output_folder
                (snd (resize env output_folder file_path desired with_playstore calls))) = Inr ()"
  by (simp add: create_directories_def create_playstore_directory_def
        create_directories_loop_only [OF assms] makedirs_ignoring_OSError_only [OF assms])

text \<open>
  The theorem in the sample environment, after a first run: \<open>os.makedirs\<close> now fails
  with EEXIST, and \<open>create_directories\<close> returns normally.
\<close>

theorem create_directories_never_raise_witness:
  "makedirs_result sample_env
     (snd (resize sample_env ''out'' ''in/icon@2x-test.png'' None True []))
     ''out/res/drawable-ldpi'' = Some (OSError 17) \<and>
   is_OSError (OSError 17) \<and>
   fst (create_directories sample_env ''out''
          (snd (resize sample_env ''out'' ''in/icon@2x-test.png'' None True []))) = Inr ()"
proof -
  have "makedirs_result sample_env
     (snd (resize sample_env ''out'' ''in/icon@2x-test.png'' None True []))
     ''out/res/drawable-ldpi'' = Some (OSError 17)"
    by (simp add: sample_run_playstore) (simp add: sample_env_def)
  then show ?thesis
    using create_directories_never_raise [OF sample_env_only_OSError, of "''out''" "[]"
        "''in/icon@2x-test.png''" None True]
    by simp
qed

text \<open>
  Claim C9: \<open>get_width_height\<close> is to keep the orientation of the source, a square
  source giving a square result. For a square source of 157 by 157 the target size of
  the \<open>ldpi\<close> bucket is 117, and the code returns 116 by 117, a portrait
  (\<open>get_width_height_bounded\<close> gives what does hold: a landscape stays a landscape and
  a portrait a portrait).
\<close>

theorem get_width_height_square_gives_portrait:
  "bucket_target_size (max 157 157) ''ldpi'' = Inr 117 \<and>
   get_width_height 157 157 117 = Inr (116, 117)"
proof -
  have "bucket_target_size (max 157 157) ''ldpi''
          = Inr \<lfloor>of_int (max 157 157) * (3 / 4 :: rat)\<rfloor>"
    by (rule bucket_target_size_exact) (simp_all add: RELATIVE_SIZES_def)
  moreover have "\<lfloor>of_int (max 157 157) * (3 / 4 :: rat)\<rfloor> = 117"
    by code_simp
  ultimately show ?thesis
    by (simp add: get_width_height_def scale_side_157_117_157)
qed

text \<open>
  Claim C10, as amended: \<open>resize\<close> creates the directories before it opens the image.
  Where \<open>os.makedirs\<close> raises nothing but OSError and \<open>Image.open\<close> fails,
  \<open>resize\<close> raises the error of \<open>Image.open\<close> after the six \<open>os.makedirs\<close>
  calls for the drawable directories, made in the order of \<open>RESOLUTION_TYPES\<close>. The
  directories created by then are those created before the call and those the six calls
  have created: each drawable directory whose \<open>os.makedirs\<close> call returned normally
  has been created, so all six where every one of these calls returns normally, and none
  is added where \<open>os.makedirs\<close> fails on each of them, a failure that
  \<open>create_directories\<close> swallows.
\<close>

theorem resize_decode_failure_after_directories:
  assumes "\<forall>calls path e. makedirs_result env calls path = Some e \<longrightarrow> is_OSError e"
    and "open_result env
           (calls @ map (\<lambda>rt. MakeDirs (path_join output_folder [DRAWABLE_FOLDER_PATH rt]))
                      RESOLUTION_TYPES) file_path = Inl e"
  shows "resize env output_folder file_path desired with_playstore calls =
           (Inl e, calls @ map (\<lambda>rt. MakeDirs (path_join output_folder [DRAWABLE_FOLDER_PATH rt]))
                             RESOLUTION_TYPES @ [ImageOpen file_path]) \<and>
         directories_created env
           (snd (resize env output_folder file_path desired with_playstore calls)) =
           directories_created env calls @
           created_dirs env calls
             (map (\<lambda>rt. MakeDirs (path_join output_folder [DRAWABLE_FOLDER_PATH rt]))
                RESOLUTION_TYPES) \<and>
         (\<forall>pre rt post.
            RESOLUTION_TYPES = pre @ rt # post \<and>
            makedirs_result env
              (calls @ map (\<lambda>rt. MakeDirs (path_join output_folder [DRAWABLE_FOLDER_PATH rt])) pre)
              (path_join output_folder [DRAWABLE_FOLDER_PATH rt]) = None \<longrightarrow>
            path_join output_folder [DRAWABLE_FOLDER_PATH rt]
              \<in> set (directories_created env
                       (snd (resize env output_folder file_path desired with_playstore calls)))) \<and>
         ((\<forall>pre rt post.
             RESOLUTION_TYPES = pre @ rt # post \<longrightarrow>
             makedirs_result env
               (calls @ map (\<lambda>rt. MakeDirs (path_join output_folder [DRAWABLE_FOLDER_PATH rt])) pre)
               (path_join output_folder [DRAWABLE_FOLDER_PATH rt]) = None) \<longrightarrow>
          (\<forall>rt \<in> set RESOLUTION_TYPES.
             path_join output_folder [DRAWABLE_FOLDER_PATH rt]
               \<in> set (directories_created env
                        (snd (resize env output_folder file_path desired with_playstore calls))))) \<and>
         ((\<forall>rt \<in> set RESOLUTION_TYPES. \<forall>calls'.
             makedirs_result env calls' (path_join output_folder [DRAWABLE_FOLDER_PATH rt]) \<noteq> None) \<longrightarrow>
          directories_created env
            (snd (resize env output_folder file_path desired with_playstore calls)) =
            directories_created env calls)"
proof -
  let ?path = "\<lambda>rt. path_join output_folder [DRAWABLE_FOLDER_PATH rt]"
  let ?M = "map (\<lambda>rt. MakeDirs (?path rt)) RESOLUTION_TYPES"
  let ?T = "snd (resize env output_folder file_path desired with_playstore calls)"
  have r: "resize env output_folder file_path desired with_playstore calls =
             (Inl e, calls @ ?M @ [ImageOpen file_path])"
    using assms(2)
    by (simp add: resize_def create_directories_def create_directories_loop_only [OF assms(1)]
          image_open_def)
  have mk: "map (\<lambda>rt. MakeDirs (?path rt)) rts = map MakeDirs (map ?path rts)" for rts
    by simp
  have d: "directories_created env ?T = directories_created env calls @ created_dirs env calls ?M"
    unfolding r by (simp add: directories_created_def created_dirs_append)
  have one: "?path rt \<in> set (directories_created env ?T)"
    if "RESOLUTION_TYPES = pre @ rt # post"
      and "makedirs_result env (calls @ map (\<lambda>rt. MakeDirs (?path rt)) pre) (?path rt) = None"
    for pre rt post
  proof -
    have "?path rt \<in> set (created_dirs env calls
            (map MakeDirs (map ?path pre @ ?path rt # map ?path post)))"
      using that(2) unfolding mk by (rule created_dirs_makedirs_split)
    also have "map MakeDirs (map ?path pre @ ?path rt # map ?path post) = ?M"
      by (simp add: that(1))
    finally show ?thesis unfolding d by simp
  qed
  have all: "\<forall>rt \<in> set RESOLUTION_TYPES. ?path rt \<in> set (directories_created env ?T)"
    if h: "\<forall>pre rt post.
             RESOLUTION_TYPES = pre @ rt # post \<longrightarrow>
             makedirs_result env (calls @ map (\<lambda>rt. MakeDirs (?path rt)) pre) (?path rt) = None"
  proof
    fix rt assume "rt \<in> set RESOLUTION_TYPES"
    then obtain pre post where s: "RESOLUTION_TYPES = pre @ rt # post"
      by (meson split_list)
    with h have "makedirs_result env (calls @ map (\<lambda>rt. MakeDirs (?path rt)) pre) (?path rt) = None"
      by blast
    with s show "?path rt \<in> set (directories_created env ?T)" by (rule one)
  qed
  have none: "directories_created env ?T = directories_created env calls"
    if "\<forall>rt \<in> set RESOLUTION_TYPES. \<forall>calls'. makedirs_result env calls' (?path rt) \<noteq> None"
  proof -
    have "created_dirs env calls (map MakeDirs (map ?path RESOLUTION_TYPES)) = []"
      using that by (intro created_dirs_all_fail) auto
    then show ?thesis unfolding d mk by simp
  qed
  from r d one all none show ?thesis by blast
qed

text \<open>
  The theorem on a file that is not there: in the sample environment, from an empty
  history, all six directories have been created; in the read-only world none has.
\<close>

theorem resize_decode_failure_after_directories_witness:
  "resize sample_env ''out'' ''in/missing.png'' None False [] =
     (Inl IOError,
      [MakeDirs ''out/res/drawable-ldpi'', MakeDirs ''out/res/drawable-mdpi'',
       MakeDirs ''out/res/drawable-hdpi'', MakeDirs ''out/res/drawable-xhdpi'',
       MakeDirs ''out/res/drawable-xxhdpi'', MakeDirs ''out/res/drawable-xxxhdpi'',
       ImageOpen ''in/missing.png'']) \<and>
   set [''out/res/drawable-ldpi'', ''out/res/drawable-mdpi'', ''out/res/drawable-hdpi'',
        ''out/res/drawable-xhdpi'', ''out/res/drawable-xxhdpi'', ''out/res/drawable-xxxhdpi'']
     \<subseteq> set (directories_created sample_env
              (snd (resize sample_env ''out'' ''in/missing.png'' None False []))) \<and>
   directories_created read_only_env
     (snd (resize read_only_env ''out'' ''in/missing.png'' None False [])) = []"
proof -
  have o: "open_result sample_env
     ([] @ map (\<lambda>rt. MakeDirs (path_join ''out'' [DRAWABLE_FOLDER_PATH rt])) RESOLUTION_TYPES)
     ''in/missing.png'' = Inl IOError"
    by (simp add: sample_env_simps)
  note s = resize_decode_failure_after_directories
             [OF sample_env_only_OSError o, of None False]
  from s have run: "resize sample_env ''out'' ''in/missing.png'' None False [] =
      (Inl IOError,
       [] @ map (\<lambda>rt. MakeDirs (path_join ''out'' [DRAWABLE_FOLDER_PATH rt])) RESOLUTION_TYPES
          @ [ImageOpen ''in/missing.png''])"
    by blast
  from s sample_env_fresh_makedirs
  have "\<forall>rt \<in> set RESOLUTION_TYPES.
          path_join ''out'' [DRAWABLE_FOLDER_PATH rt]
            \<in> set (directories_created sample_env
                     (snd (resize sample_env ''out'' ''in/missing.png'' None False [])))"
    by blast
  then have made: "set [''out/res/drawable-ldpi'', ''out/res/drawable-mdpi'',
        ''out/res/drawable-hdpi'', ''out/res/drawable-xhdpi'', ''out/res/drawable-xxhdpi'',
        ''out/res/drawable-xxxhdpi'']
     \<subseteq> set (directories_created sample_env
              (snd (resize sample_env ''out'' ''in/missing.png'' None False [])))"
    by (simp add: RESOLUTION_TYPES_def sample_paths)
  have o': "open_result read_only_env
     ([] @ map (\<lambda>rt. MakeDirs (path_join ''out'' [DRAWABLE_FOLDER_PATH rt])) RESOLUTION_TYPES)
     ''in/missing.png'' = Inl IOError"
    by (simp add: read_only_env_def)
  have fail: "\<forall>rt \<in> set RESOLUTION_TYPES. \<forall>calls'.
      makedirs_result read_only_env calls' (path_join ''out'' [DRAWABLE_FOLDER_PATH rt]) \<noteq> None"
    by (simp add: read_only_env_def)
  from resize_decode_failure_after_directories
         [OF read_only_env_only_OSError o', of None False] fail
  have "directories_created read_only_env
     (snd (resize read_only_env ''out'' ''in/missing.png'' None False [])) =
     directories_created read_only_env []"
    by blast
  then have ro: "directories_created read_only_env
     (snd (resize read_only_env ''out'' ''in/missing.png'' None False [])) = []"
    by (simp add: directories_created_def)
  from run made ro show ?thesis
    by (simp add: RESOLUTION_TYPES_def sample_paths)
qed

text \<open>
  Against the claim as it was stated, that the six directories have been created whenever
  the image cannot be opened: in the read-only world every \<open>os.makedirs\<close> fails with
  EACCES, \<open>create_directories\<close> swallows the six errors, \<open>resize\<close> raises the
  error of \<open>Image.open\<close>, and no directory has been created.
\<close>

theorem resize_decode_failure_creates_no_directory:
  "resize read_only_env ''out'' ''in/missing.png'' None False [] =
     (Inl IOError,
      [MakeDirs ''out/res/drawable-ldpi'', MakeDirs ''out/res/drawable-mdpi'',
       MakeDirs ''out/res/drawable-hdpi'', MakeDirs ''out/res/drawable-xhdpi'',
       MakeDirs ''out/res/drawable-xxhdpi'', MakeDirs ''out/res/drawable-xxxhdpi'',
       ImageOpen ''in/missing.png'']) \<and>
   directories_created read_only_env
     (snd (resize read_only_env ''out'' ''in/missing.png'' None False [])) = [] \<and>
   ''out/res/drawable-ldpi''
     \<notin> set (directories_created read_only_env
              (snd (resize read_only_env ''out'' ''in/missing.png'' None False [])))"
proof -
  have "resize read_only_env ''out'' ''in/missing.png'' None False [] =
     (Inl IOError,
      [MakeDirs ''out/res/drawable-ldpi'', MakeDirs ''out/res/drawable-mdpi'',
       MakeDirs ''out/res/drawable-hdpi'', MakeDirs ''out/res/drawable-xhdpi'',
       MakeDirs ''out/res/drawable-xxhdpi'', MakeDirs ''out/res/drawable-xxxhdpi'',
       ImageOpen ''in/missing.png''])"
    by (simp add: resize_def create_directories_def
          create_directories_loop_only [OF read_only_env_only_OSError] image_open_def)
       (simp add: read_only_env_def RESOLUTION_TYPES_def sample_paths)
  then show ?thesis
    by (simp add: directories_created_def) (simp add: read_only_env_def)
qed

end
